theory Spec2Isabelle
  imports Complex_Main
begin

section \<open>The collaborative-filtering notebook: data frames as lists of rows\<close>

text \<open>
  The notebook works on pandas data frames with the columns
  \<^verbatim>\<open>userID, itemID, rating, timestamp\<close>. A frame is the list of its rows in frame
  order; a row is a record. Identifiers and timestamps are Python integers; ratings and
  prediction scores are floats, read here as reals (no NaN and no infinity: the loaded
  frames have no missing cell, so a missing cell only arises from the outer merge below,
  where it is \<open>None\<close>).
\<close>

record interaction =
  userID :: int
  itemID :: int
  rating :: real
  timestamp :: int

datatype py_error = IndexError | ValueError

text \<open>
  \<^verbatim>\<open>Series.unique()\<close> keeps the values in order of first appearance, and
  \<^verbatim>\<open>Series.isin(values)\<close> tests membership.
\<close>

definition unique :: "'a list \<Rightarrow> 'a list" where
  "unique xs = rev (remdups (rev xs))"

definition isin :: "'a \<Rightarrow> 'a list \<Rightarrow> bool" where
  "isin x vals = (x \<in> set vals)"

subsection \<open>Filtering the test partition and the leave-one-out test set\<close>

text \<open>
  \<^verbatim>\<open>
  test = test[test["userID"].isin(train["userID"].unique())]
  test = test[test["itemID"].isin(train["itemID"].unique())]
  \<close>
\<close>

definition filter_test :: "interaction list \<Rightarrow> interaction list \<Rightarrow> interaction list" where
  "filter_test train test =
     (let test1 = filter (\<lambda>r. isin (userID r) (unique (map userID train))) test
      in filter (\<lambda>r. isin (itemID r) (unique (map itemID train))) test1)"

text \<open>
  \<^verbatim>\<open>leave_one_out_test = test.groupby("userID").last().reset_index()\<close>

  \<^verbatim>\<open>groupby\<close> sorts the group keys; \<^verbatim>\<open>last()\<close> takes, column by column, the
  last entry of the group that is not missing, which for rows without missing cells is
  the group's last row in frame order; \<^verbatim>\<open>reset_index()\<close> turns the key back into
  the \<^verbatim>\<open>userID\<close> column. A key only arises from a row of the frame, so the group
  whose last row is taken is never empty.
\<close>

definition leave_one_out_test :: "interaction list \<Rightarrow> interaction list" where
  "leave_one_out_test test =
     map (\<lambda>u. last (filter (\<lambda>r. userID r = u) test)) (sort (remdups (map userID test)))"

text \<open>
  The test partition comes from \<^verbatim>\<open>python_chrono_split(df, 0.75)\<close>, a function of the
  \<^verbatim>\<open>recommenders\<close> package that is not among the repository's files. What the
  notebook takes from it is the chronological order inside the partition: the rows of one
  user stand in non-decreasing order of their timestamps.
\<close>

fun chrono_ordered :: "interaction list \<Rightarrow> bool" where
  "chrono_ordered [] = True"
| "chrono_ordered (r # rs) =
     ((\<forall>s \<in> set rs. userID s = userID r \<longrightarrow> timestamp r \<le> timestamp s) \<and> chrono_ordered rs)"

subsection \<open>The leave-one-out evaluation loop\<close>

text \<open>
  A test batch is what the loop unpacks: \<^verbatim>\<open>user_input, item_input, labels = b\<close>.
\<close>

type_synonym batch = "int list \<times> int list \<times> int list"

text \<open>
  Modelled from the spec: \<^verbatim>\<open>NCFDataset.test_loader\<close>, whose class is not among the
  repository's files. The glossary has each held-out positive "ranked against sampled
  negatives", and the notebook describes the loader as generating one test batch per
  positive test instance, such as
  \<^verbatim>\<open>[[1, 2, 1], [1, 3, 0], [1, 6, 0], ...]\<close> (rows \<^verbatim>\<open>[userID, itemID, rating]\<close>):
  the positive first with label 1, then the sampled negatives of that user with label 0.
  The sampling is a parameter.
\<close>

definition test_loader :: "(interaction \<Rightarrow> int list) \<Rightarrow> interaction list \<Rightarrow> batch list" where
  "test_loader negatives rows =
     map (\<lambda>r. (replicate (Suc (length (negatives r))) (userID r),
               itemID r # negatives r,
               1 # replicate (length (negatives r)) 0)) rows"

text \<open>
  \<^verbatim>\<open>
  k = TOP_K

  ndcgs = []
  hit_ratio = []

  for b in data.test_loader():
      user_input, item_input, labels = b
      output = model.predict(user_input, item_input, is_list=True)

      output = np.squeeze(output)
      rank = sum(output >= output[0])
      if rank <= k:
          ndcgs.append(1 / np.log(rank + 1))
          hit_ratio.append(1)
      else:
          ndcgs.append(0)
          hit_ratio.append(0)

  eval_ndcg = np.mean(ndcgs)
  eval_hr = np.mean(hit_ratio)
  \<close>
  The trained model is a parameter \<open>predict\<close>, which returns the list of scores of a
  batch. \<^verbatim>\<open>np.squeeze\<close> turns a one-element list into a zero-dimensional array, on
  which \<^verbatim>\<open>output[0]\<close> raises IndexError, as it does on an empty array.
  \<^verbatim>\<open>sum\<close> adds the booleans of the comparison as 0 and 1. \<^verbatim>\<open>np.log\<close> is the
  natural logarithm. \<^verbatim>\<open>np.mean\<close> of an empty list is NaN, here \<open>None\<close>.
  A failure inside the model's own \<^verbatim>\<open>predict\<close> would end the cell; the model of
  the loop starts from the scores it returns.
\<close>

record eval_state =
  ndcgs :: "real list"
  hit_ratio :: "nat list"

definition TOP_K :: nat where
  "TOP_K = 10"

datatype ndarray = Scalar real | Vector "real list"

definition squeeze :: "real list \<Rightarrow> ndarray" where
  "squeeze xs = (case xs of [x] \<Rightarrow> Scalar x | _ \<Rightarrow> Vector xs)"

definition rank :: "ndarray \<Rightarrow> py_error + nat" where
  "rank output =
     (case output of
        Scalar x \<Rightarrow> Inl IndexError
      | Vector [] \<Rightarrow> Inl IndexError
      | Vector (x0 # xs) \<Rightarrow> Inr (sum_list (map (\<lambda>x. if x0 \<le> x then 1 else 0) (x0 # xs))))"

definition eval_step :: "nat \<Rightarrow> real list \<Rightarrow> eval_state \<Rightarrow> py_error + eval_state" where
  "eval_step k prediction s =
     (case rank (squeeze prediction) of
        Inl e \<Rightarrow> Inl e
      | Inr r \<Rightarrow>
          if r \<le> k
          then Inr (s\<lparr>ndcgs := ndcgs s @ [1 / ln (real (r + 1))], hit_ratio := hit_ratio s @ [1]\<rparr>)
          else Inr (s\<lparr>ndcgs := ndcgs s @ [0], hit_ratio := hit_ratio s @ [0]\<rparr>))"

fun eval_loop ::
  "nat \<Rightarrow> (int list \<Rightarrow> int list \<Rightarrow> real list) \<Rightarrow> batch list \<Rightarrow> eval_state \<Rightarrow> py_error + eval_state" where
  "eval_loop k predict [] s = Inr s"
| "eval_loop k predict ((user_input, item_input, labels) # bs) s =
     (case eval_step k (predict user_input item_input) s of
        Inl e \<Rightarrow> Inl e
      | Inr s' \<Rightarrow> eval_loop k predict bs s')"

definition mean :: "real list \<Rightarrow> real option" where
  "mean xs = (if xs = [] then None else Some (sum_list xs / real (length xs)))"

text \<open>The pair \<^verbatim>\<open>(eval_ndcg, eval_hr)\<close> the cell computes.\<close>

definition leave_one_out_eval ::
  "(int list \<Rightarrow> int list \<Rightarrow> real list) \<Rightarrow> batch list \<Rightarrow> py_error + (real option \<times> real option)" where
  "leave_one_out_eval predict batches =
     (case eval_loop TOP_K predict batches \<lparr>ndcgs = [], hit_ratio = []\<rparr> of
        Inl e \<Rightarrow> Inl e
      | Inr s \<Rightarrow> Inr (mean (ndcgs s), mean (map real (hit_ratio s))))"

text \<open>
  The rank of the positive item, counted directly: the number of scores of the list that
  are greater than or equal to its first score. With it, what one pass of the loop
  appends to the two lists.
\<close>

definition n_scores_ge_first :: "real list \<Rightarrow> nat" where
  "n_scores_ge_first scores = length (filter (\<lambda>x. scores ! 0 \<le> x) scores)"

definition hit_of :: "nat \<Rightarrow> real list \<Rightarrow> nat" where
  "hit_of k scores = (if n_scores_ge_first scores \<le> k then 1 else 0)"

definition ndcg_of :: "nat \<Rightarrow> real list \<Rightarrow> real" where
  "ndcg_of k scores =
     (if n_scores_ge_first scores \<le> k then 1 / ln (real (n_scores_ge_first scores + 1)) else 0)"

subsection \<open>Predictions on all pairs for the generic ranking evaluation\<close>

text \<open>
  \<^verbatim>\<open>
  users, items, preds = [], [], []
  item = list(train.itemID.unique())
  for user in train.userID.unique():
      user = [user] * len(item)
      users.extend(user)
      items.extend(item)
      preds.extend(list(model.predict(user, item, is_list=True)))

  all_predictions = pd.DataFrame(data={"userID": users, "itemID":items, "prediction":preds})

  merged = pd.merge(train, all_predictions, on=["userID", "itemID"], how="outer")
  all_predictions = merged[merged.rating.isnull()].drop('rating', axis=1)
  \<close>
  \<^verbatim>\<open>pd.DataFrame\<close> raises ValueError when its columns differ in length. The outer
  merge has one row for every pair of a left and a right row with the same key, one row
  for every left row without a partner (its right columns missing) and one row for every
  right row without a partner (its left columns missing). The rows of one key stand
  together, the left rows in their order and for each of them the right rows in their
  order; the keys come in the order of their first occurrence, in the left frame and
  then in the right frame (the merge is called without \<^verbatim>\<open>sort\<close>). The last
  line keeps the rows whose rating is missing and drops the rating column.
\<close>

record prediction_row =
  p_userID :: int
  p_itemID :: int
  p_prediction :: real

record merged_row =
  m_userID :: int
  m_itemID :: int
  m_rating :: "real option"
  m_timestamp :: "int option"
  m_prediction :: "real option"

record unrated_row =
  a_userID :: int
  a_itemID :: int
  a_timestamp :: "int option"
  a_prediction :: "real option"

fun predict_all ::
  "(int list \<Rightarrow> int list \<Rightarrow> real list) \<Rightarrow> int list \<Rightarrow> int list \<Rightarrow>
   int list \<times> int list \<times> real list \<Rightarrow> int list \<times> int list \<times> real list" where
  "predict_all predict item [] acc = acc"
| "predict_all predict item (u # rest) (users, items, preds) =
     (let user = replicate (length item) u
      in predict_all predict item rest (users @ user, items @ item, preds @ predict user item))"

definition DataFrame :: "int list \<Rightarrow> int list \<Rightarrow> real list \<Rightarrow> py_error + prediction_row list" where
  "DataFrame users items preds =
     (if length users = length items \<and> length items = length preds
      then Inr (map (\<lambda>(u, i, p). \<lparr>p_userID = u, p_itemID = i, p_prediction = p\<rparr>)
                    (zip users (zip items preds)))
      else Inl ValueError)"

definition both :: "interaction \<Rightarrow> prediction_row \<Rightarrow> merged_row" where
  "both l r = \<lparr>m_userID = userID l, m_itemID = itemID l, m_rating = Some (rating l),
               m_timestamp = Some (timestamp l), m_prediction = Some (p_prediction r)\<rparr>"

definition left_only :: "interaction \<Rightarrow> merged_row" where
  "left_only l = \<lparr>m_userID = userID l, m_itemID = itemID l, m_rating = Some (rating l),
                  m_timestamp = Some (timestamp l), m_prediction = None\<rparr>"

definition right_only :: "prediction_row \<Rightarrow> merged_row" where
  "right_only r = \<lparr>m_userID = p_userID r, m_itemID = p_itemID r, m_rating = None,
                   m_timestamp = None, m_prediction = Some (p_prediction r)\<rparr>"

definition merge_group :: "interaction list \<Rightarrow> prediction_row list \<Rightarrow> int \<times> int \<Rightarrow> merged_row list" where
  "merge_group left right k =
     (let ls = filter (\<lambda>l. (userID l, itemID l) = k) left;
          rs = filter (\<lambda>r. (p_userID r, p_itemID r) = k) right
      in if rs = [] then map left_only ls
         else if ls = [] then map right_only rs
         else concat (map (\<lambda>l. map (both l) rs) ls))"

definition merge_outer :: "interaction list \<Rightarrow> prediction_row list \<Rightarrow> merged_row list" where
  "merge_outer left right =
     concat (map (merge_group left right)
                 (unique (map (\<lambda>l. (userID l, itemID l)) left @ map (\<lambda>r. (p_userID r, p_itemID r)) right)))"

definition drop_rating :: "merged_row \<Rightarrow> unrated_row" where
  "drop_rating m = \<lparr>a_userID = m_userID m, a_itemID = m_itemID m,
                    a_timestamp = m_timestamp m, a_prediction = m_prediction m\<rparr>"

definition all_predictions ::
  "(int list \<Rightarrow> int list \<Rightarrow> real list) \<Rightarrow> interaction list \<Rightarrow> py_error + unrated_row list" where
  "all_predictions predict train =
     (let item = unique (map itemID train);
          (users, items, preds) = predict_all predict item (unique (map userID train)) ([], [], [])
      in case DataFrame users items preds of
           Inl e \<Rightarrow> Inl e
         | Inr frame \<Rightarrow>
             Inr (map drop_rating (filter (\<lambda>m. m_rating m = None) (merge_outer train frame))))"

text \<open>
  The frame of predictions when the model returns one score for each pair of a call: for
  every user, the items zipped with the scores of that user's call.
\<close>

definition cross_frame ::
  "(int list \<Rightarrow> int list \<Rightarrow> real list) \<Rightarrow> int list \<Rightarrow> int list \<Rightarrow> prediction_row list" where
  "cross_frame predict item us =
     concat (map (\<lambda>u. map (\<lambda>(i, p). \<lparr>p_userID = u, p_itemID = i, p_prediction = p\<rparr>)
                           (zip item (predict (replicate (length item) u) item))) us)"

section \<open>The xDeepFM notebook: the sparse-format iterator\<close>

text \<open>
  The notebook passes \<^verbatim>\<open>FFMTextIterator\<close> of the \<^verbatim>\<open>recommenders\<close> package to the
  model as its data loader; the class is not among the repository's files. What follows
  is modelled from the spec's contract for the iterator and from the notebook's own
  description of its input format: "\<^verbatim>\<open><label> <field_id>:<feature_id>:<feature_value>\<close>.
  Each line represents an instance, \<^verbatim>\<open><label>\<close> is a binary value with 1 meaning
  positive instance and 0 meaning negative instance. [...] Both field index and feature
  index are starting from 1."
\<close>

subsection \<open>The sparse-format text iterator\<close>

text \<open>
  Modelled from the spec: the input of \<^verbatim>\<open>FFMTextIterator\<close>, "a text file where each
  line is \<^verbatim>\<open>label field1:feat1:val1 field2:feat2:val2 ...\<close>", one sparse feature record
  per line: "a label (binary) plus a variable-length list of (field id, feature id,
  value) triples"; "field and feature ids are 1-based".
\<close>

record sparse_record =
  label :: nat
  features :: "(nat \<times> nat \<times> real) list"

text \<open>
  Modelled from the spec: the failure mode, "malformed lines (wrong token count,
  non-numeric ids) should fail fast with a descriptive parse error". The error names the
  line (counted from 1), the offending token and what is wrong with it. Besides the two
  defects the spec lists, a token can fail because the label is not binary, because its
  value is not a decimal number, or because an id is 0, which is not a 1-based id.
\<close>

datatype parse_reason = BadLabel | WrongTokenCount | NonNumericId | IdBelowOne | BadValue

datatype parse_error = ParseError nat string parse_reason

text \<open>
  Splitting at a separator, as \<^verbatim>\<open>str.split(sep)\<close> does: the separator never occurs in
  a part, and an empty string gives one empty part.
\<close>

fun split_on :: "char \<Rightarrow> string \<Rightarrow> string list" where
  "split_on c [] = [[]]"
| "split_on c (x # xs) =
     (if x = c then [] # split_on c xs
      else (case split_on c xs of [] \<Rightarrow> [[x]] | w # ws \<Rightarrow> (x # w) # ws))"

definition is_digit :: "char \<Rightarrow> bool" where
  "is_digit ch = (ch \<in> set ''0123456789'')"

definition digit_val :: "char \<Rightarrow> nat" where
  "digit_val ch = of_char ch - 48"

definition parse_nat :: "string \<Rightarrow> nat option" where
  "parse_nat s =
     (if s \<noteq> [] \<and> list_all is_digit s
      then Some (foldl (\<lambda>n ch. 10 * n + digit_val ch) 0 s)
      else None)"

text \<open>A value is a decimal number: digits, optionally followed by a point and digits.\<close>

definition parse_value :: "string \<Rightarrow> real option" where
  "parse_value s =
     (case split_on CHR ''.'' s of
        [w] \<Rightarrow> map_option real (parse_nat w)
      | [w, f] \<Rightarrow>
          (case (parse_nat w, parse_nat f) of
             (Some a, Some b) \<Rightarrow> Some (real a + real b / 10 ^ length f)
           | _ \<Rightarrow> None)
      | _ \<Rightarrow> None)"

text \<open>
  Modelled from the spec: parsing one \<^verbatim>\<open>field:feat:val\<close> token, then the tokens of a
  line from left to right up to the first that fails, then a line, whose first token is
  the label.
\<close>

definition parse_feature ::
  "nat \<Rightarrow> string \<Rightarrow> parse_error + (nat \<times> nat \<times> real)" where
  "parse_feature n tok =
     (case split_on CHR '':'' tok of
        [f, i, v] \<Rightarrow>
          (case (parse_nat f, parse_nat i) of
             (Some fid, Some iid) \<Rightarrow>
               if 1 \<le> fid \<and> 1 \<le> iid
               then (case parse_value v of
                       Some x \<Rightarrow> Inr (fid, iid, x)
                     | None \<Rightarrow> Inl (ParseError n tok BadValue))
               else Inl (ParseError n tok IdBelowOne)
           | _ \<Rightarrow> Inl (ParseError n tok NonNumericId))
      | _ \<Rightarrow> Inl (ParseError n tok WrongTokenCount))"

fun parse_features ::
  "nat \<Rightarrow> string list \<Rightarrow> parse_error + (nat \<times> nat \<times> real) list" where
  "parse_features n [] = Inr []"
| "parse_features n (tok # toks) =
     (case parse_feature n tok of
        Inl e \<Rightarrow> Inl e
      | Inr t \<Rightarrow> (case parse_features n toks of
                    Inl e \<Rightarrow> Inl e
                  | Inr ts \<Rightarrow> Inr (t # ts)))"

definition parser_one_line :: "nat \<Rightarrow> string \<Rightarrow> parse_error + sparse_record" where
  "parser_one_line n line =
     (case split_on CHR '' '' line of
        [] \<Rightarrow> Inl (ParseError n line BadLabel)
      | lab # toks \<Rightarrow>
          if lab = ''0'' \<or> lab = ''1''
          then (case parse_features n toks of
                  Inl e \<Rightarrow> Inl e
                | Inr ts \<Rightarrow> Inr \<lparr>label = (if lab = ''1'' then 1 else 0), features = ts\<rparr>)
          else Inl (ParseError n lab BadLabel))"

text \<open>
  Modelled from the spec: the output, "a structure holding parallel arrays of field
  indices, feature indices, feature values, and labels, padded/grouped so that every
  record in a batch contributes the same field-count layout expected by the
  embedding-lookup step". The arrays have one entry for every triple of the batch, in
  line order, with 0-based indices. The iterator is created with the hyperparameters, of
  which it reads the number of fields, the notebook's \<^verbatim>\<open>FIELD_COUNT\<close>: the
  layout gives every record of the batch that many consecutive rows, one for each field;
  \<open>layout_rows\<close> is a fourth parallel array that holds the row of each entry (the
  record's first row plus the field index), and \<open>n_rows\<close> is the number of rows of
  the batch.
\<close>

record ffm_batch =
  labels :: "nat list"
  layout_rows :: "nat list"
  field_indices :: "nat list"
  feature_indices :: "nat list"
  feature_values :: "real list"
  n_rows :: nat

definition entries_of :: "nat \<Rightarrow> nat \<Rightarrow> sparse_record \<Rightarrow> (nat \<times> nat \<times> nat \<times> real) list" where
  "entries_of field_count b r =
     map (\<lambda>(fid, iid, x). (b * field_count + (fid - 1), fid - 1, iid - 1, x)) (features r)"

definition to_batch :: "nat \<Rightarrow> sparse_record list \<Rightarrow> ffm_batch" where
  "to_batch field_count rs =
     (let es = concat (map (\<lambda>(b, r). entries_of field_count b r) (zip [0..<length rs] rs))
      in \<lparr>labels = map label rs,
          layout_rows = map (\<lambda>(row, f, i, x). row) es,
          field_indices = map (\<lambda>(row, f, i, x). f) es,
          feature_indices = map (\<lambda>(row, f, i, x). i) es,
          feature_values = map (\<lambda>(row, f, i, x). x) es,
          n_rows = length rs * field_count\<rparr>)"

text \<open>
  Modelled from the spec: the iterator, whose "records are grouped into fixed-size
  batches"; batches are produced one after the other while the lines are read. A batch is
  complete when it holds \<open>bs\<close> records; the records left at the end of the file form a
  last, smaller batch. When a line fails to parse, the error ends the iteration: the
  result is the batches produced before that line together with the error.
\<close>

fun load_loop ::
  "nat \<Rightarrow> nat \<Rightarrow> nat \<Rightarrow> sparse_record list \<Rightarrow> string list \<Rightarrow>
   ffm_batch list \<times> parse_error option" where
  "load_loop field_count bs n buf [] = (if buf = [] then [] else [to_batch field_count buf], None)"
| "load_loop field_count bs n buf (line # rest) =
     (case parser_one_line n line of
        Inl e \<Rightarrow> ([], Some e)
      | Inr r \<Rightarrow>
          if length (buf @ [r]) = bs
          then (case load_loop field_count bs (Suc n) [] rest of
                  (batches, err) \<Rightarrow> (to_batch field_count (buf @ [r]) # batches, err))
          else load_loop field_count bs (Suc n) (buf @ [r]) rest)"

definition load_data_from_file ::
  "nat \<Rightarrow> nat \<Rightarrow> string list \<Rightarrow> ffm_batch list \<times> parse_error option" where
  "load_data_from_file field_count bs lines = load_loop field_count bs 1 [] lines"

text \<open>
  Modelled from the spec: the well-formed lines, "\<^verbatim>\<open>label field1:feat1:val1
  field2:feat2:val2 ...\<close>", given by what they say and not by how they are read. A
  numeral is a non-empty list of decimal digits, the most significant first; its text
  writes every digit as a character and its value is the sum of the digits times their
  powers of ten. A value is a numeral, optionally followed by a point and further
  digits, which count tenths, hundredths and so on. A line is a label and a list of
  triples of a field numeral, a feature numeral and a value; its text is the label
  followed by the triples, each after a space, and the text of a triple is its three
  parts joined by colons.
\<close>

definition digit_char :: "nat \<Rightarrow> char" where
  "digit_char d = ''0123456789'' ! d"

definition numeral_text :: "nat list \<Rightarrow> string" where
  "numeral_text ds = map digit_char ds"

fun numeral_value :: "nat list \<Rightarrow> nat" where
  "numeral_value [] = 0"
| "numeral_value (d # ds) = d * 10 ^ length ds + numeral_value ds"

fun fraction_value :: "nat list \<Rightarrow> real" where
  "fraction_value [] = 0"
| "fraction_value (d # ds) = (real d + fraction_value ds) / 10"

definition digits :: "nat list \<Rightarrow> bool" where
  "digits ds = list_all (\<lambda>d. d < 10) ds"

definition is_numeral :: "nat list \<Rightarrow> bool" where
  "is_numeral ds = (ds \<noteq> [] \<and> digits ds)"

type_synonym ffm_value = "nat list \<times> nat list"

type_synonym ffm_triple = "nat list \<times> nat list \<times> ffm_value"

type_synonym ffm_line = "nat \<times> ffm_triple list"

definition value_text :: "ffm_value \<Rightarrow> string" where
  "value_text v = (case v of (w, q) \<Rightarrow> numeral_text w @ (if q = [] then [] else CHR ''.'' # numeral_text q))"

definition value_of :: "ffm_value \<Rightarrow> real" where
  "value_of v = (case v of (w, q) \<Rightarrow> real (numeral_value w) + fraction_value q)"

definition is_value :: "ffm_value \<Rightarrow> bool" where
  "is_value v = (case v of (w, q) \<Rightarrow> is_numeral w \<and> digits q)"

definition triple_text :: "ffm_triple \<Rightarrow> string" where
  "triple_text t = (case t of (f, i, v) \<Rightarrow> numeral_text f @ '':'' @ numeral_text i @ '':'' @ value_text v)"

definition line_text :: "ffm_line \<Rightarrow> string" where
  "line_text l = (case l of (lab, triples) \<Rightarrow> numeral_text [lab] @ concat (map (\<lambda>t. '' '' @ triple_text t) triples))"

text \<open>
  Modelled from the spec: a line is well formed for an iterator with
  \<^verbatim>\<open>FIELD_COUNT\<close> fields when its label is binary, its ids are numerals of
  numbers from 1 up ("field and feature ids are 1-based"), its field ids are ids of
  fields of the layout, that is at most \<^verbatim>\<open>FIELD_COUNT\<close>, and its values are
  decimal numbers. \<open>record_of\<close> is the sparse feature record that the line denotes.
\<close>

definition good_triple :: "nat \<Rightarrow> ffm_triple \<Rightarrow> bool" where
  "good_triple field_count t =
     (case t of (f, i, v) \<Rightarrow>
        is_numeral f \<and> 1 \<le> numeral_value f \<and> numeral_value f \<le> field_count \<and>
        is_numeral i \<and> 1 \<le> numeral_value i \<and> is_value v)"

definition well_formed :: "nat \<Rightarrow> ffm_line \<Rightarrow> bool" where
  "well_formed field_count l =
     (case l of (lab, triples) \<Rightarrow> lab \<le> 1 \<and> list_all (good_triple field_count) triples)"

definition record_of :: "ffm_line \<Rightarrow> sparse_record" where
  "record_of l =
     (case l of (lab, triples) \<Rightarrow>
        \<lparr>label = lab,
         features = map (\<lambda>(f, i, v). (numeral_value f, numeral_value i, value_of v)) triples\<rparr>)"

text \<open>A record whose field ids are ids of fields of the layout.\<close>

definition in_fields :: "nat \<Rightarrow> sparse_record \<Rightarrow> bool" where
  "in_fields field_count r = list_all (\<lambda>(fid, iid, x). 1 \<le> fid \<and> fid \<le> field_count) (features r)"

text \<open>
  Modelled from the spec: what a batch has to hold for a group of records. The label
  array holds the labels of the records; the arrays of field indices, feature indices
  and feature values hold, record after record, the triples of the records, the ids
  0-based. The arrays are parallel. The layout has \<^verbatim>\<open>FIELD_COUNT\<close> rows for each
  record of the group, the rows of the first record first; every entry has a row of the
  layout, which lies in the block of rows of the entry's own record (\<open>owners\<close> gives,
  entry after entry, the position in the group of the record an entry comes from), at
  the position of the entry's field within the block.
\<close>

definition parallel_arrays :: "ffm_batch \<Rightarrow> bool" where
  "parallel_arrays b =
     (length (layout_rows b) = length (field_indices b) \<and>
      length (field_indices b) = length (feature_indices b) \<and>
      length (feature_indices b) = length (feature_values b))"

definition batch_arrays :: "sparse_record list \<Rightarrow> ffm_batch \<Rightarrow> bool" where
  "batch_arrays rs b =
     (labels b = map label rs \<and>
      field_indices b = concat (map (\<lambda>r. map (\<lambda>(fid, iid, x). fid - 1) (features r)) rs) \<and>
      feature_indices b = concat (map (\<lambda>r. map (\<lambda>(fid, iid, x). iid - 1) (features r)) rs) \<and>
      feature_values b = concat (map (\<lambda>r. map (\<lambda>(fid, iid, x). x) (features r)) rs))"

definition owners :: "sparse_record list \<Rightarrow> nat list" where
  "owners rs = concat (map (\<lambda>(j, r). replicate (length (features r)) j) (zip [0..<length rs] rs))"

definition field_layout :: "nat \<Rightarrow> sparse_record list \<Rightarrow> ffm_batch \<Rightarrow> bool" where
  "field_layout field_count rs b =
     (n_rows b = length rs * field_count \<and>
      list_all (\<lambda>f. f < field_count) (field_indices b) \<and>
      list_all (\<lambda>row. row < n_rows b) (layout_rows b) \<and>
      map (\<lambda>row. row div field_count) (layout_rows b) = owners rs \<and>
      map (\<lambda>row. row mod field_count) (layout_rows b) = field_indices b)"

definition batch_of :: "nat \<Rightarrow> sparse_record list \<Rightarrow> ffm_batch \<Rightarrow> bool" where
  "batch_of field_count rs b =
     (batch_arrays rs b \<and> parallel_arrays b \<and> field_layout field_count rs b)"

text \<open>
  Modelled from the spec: "records are grouped into fixed-size batches". The batches of
  an iteration with batch size \<open>bs\<close> hold the records of the file, in order,
  cut into groups of \<open>bs\<close> records, the last group holding the records that are left,
  at least one; every batch is the batch of its group.
\<close>

definition grouped :: "nat \<Rightarrow> sparse_record list \<Rightarrow> sparse_record list list \<Rightarrow> bool" where
  "grouped bs rs groups =
     (concat groups = rs \<and>
      list_all (\<lambda>g. 0 < length g \<and> length g \<le> bs) groups \<and>
      list_all (\<lambda>g. length g = bs) (butlast groups))"

text \<open>
  Malformed lines: a line with a feature token (a token after the label) that does not
  split at colons into three parts (wrong token count), or whose field or feature part is
  not a decimal numeral (non-numeric id).
\<close>

definition feature_tokens :: "string \<Rightarrow> string list" where
  "feature_tokens line = tl (split_on CHR '' '' line)"

definition wrong_token_count :: "string \<Rightarrow> bool" where
  "wrong_token_count tok = (length (split_on CHR '':'' tok) \<noteq> 3)"

definition non_numeric_ids :: "string \<Rightarrow> bool" where
  "non_numeric_ids tok =
     (case split_on CHR '':'' tok of
        [f, i, v] \<Rightarrow> parse_nat f = None \<or> parse_nat i = None
      | _ \<Rightarrow> False)"

definition malformed :: "string \<Rightarrow> bool" where
  "malformed line = list_ex (\<lambda>tok. wrong_token_count tok \<or> non_numeric_ids tok) (feature_tokens line)"

section \<open>Properties of the test-partition filter\<close>

lemma set_unique: "set (unique xs) = set xs"
  by (simp add: unique_def)

lemma distinct_unique: "distinct (unique xs)"
  by (simp add: unique_def)

lemma filter_test_eq:
  "filter_test train test =
     filter (\<lambda>r. userID r \<in> userID ` set train \<and> itemID r \<in> itemID ` set train) test"
  by (auto simp: filter_test_def isin_def set_unique Let_def intro: filter_cong)

text \<open>
  C9. After the two \<^verbatim>\<open>isin\<close> filters, every userID that occurs in the test frame
  occurs in the training frame, and every itemID that occurs in the test frame occurs
  in the training frame.
\<close>

theorem filtered_test_ids_in_train:
  "userID ` set (filter_test train test) \<subseteq> userID ` set train \<and>
   itemID ` set (filter_test train test) \<subseteq> itemID ` set train"
  by (auto simp: filter_test_eq)

section \<open>The leave-one-out test set\<close>

lemma chrono_ordered_filter: "chrono_ordered rs \<Longrightarrow> chrono_ordered (filter P rs)"
  by (induction rs) auto

lemma last_of_user:
  assumes "chrono_ordered rs" and "u \<in> userID ` set rs"
  shows "last (filter (\<lambda>r. userID r = u) rs) \<in> set rs \<and>
         userID (last (filter (\<lambda>r. userID r = u) rs)) = u \<and>
         (\<forall>s \<in> set rs. userID s = u \<longrightarrow> timestamp s \<le> timestamp (last (filter (\<lambda>r. userID r = u) rs)))"
  using assms
proof (induction rs)
  case Nil
  then show ?case by simp
next
  case (Cons r rs)
  show ?case
  proof (cases "u \<in> userID ` set rs")
    case True
    then have ne: "filter (\<lambda>r. userID r = u) rs \<noteq> []"
      by (auto simp: filter_empty_conv)
    from Cons.prems(1) have ord: "chrono_ordered rs" by simp
    note IH = Cons.IH[OF ord True]
    have l: "last (filter (\<lambda>r. userID r = u) (r # rs)) = last (filter (\<lambda>r. userID r = u) rs)"
      using ne by simp
    from IH have mem: "last (filter (\<lambda>r. userID r = u) rs) \<in> set rs" by blast
    have "userID r = u \<Longrightarrow> timestamp r \<le> timestamp (last (filter (\<lambda>r. userID r = u) rs))"
      using Cons.prems(1) mem IH by auto
    with IH show ?thesis unfolding l by auto
  next
    case False
    with Cons.prems(2) have u: "userID r = u" by auto
    from False have "filter (\<lambda>r. userID r = u) rs = []"
      by (auto simp: filter_empty_conv)
    with u False show ?thesis by (auto simp: image_iff)
  qed
qed

lemma userID_leave_one_out:
  "map userID (leave_one_out_test rs) = sort (remdups (map userID rs))"
proof -
  have "\<And>u. u \<in> set (sort (remdups (map userID rs))) \<Longrightarrow>
          userID (last (filter (\<lambda>r. userID r = u) rs)) = u"
  proof -
    fix u assume "u \<in> set (sort (remdups (map userID rs)))"
    then have "filter (\<lambda>r. userID r = u) rs \<noteq> []"
      by (auto simp: filter_empty_conv)
    then have "last (filter (\<lambda>r. userID r = u) rs) \<in> set (filter (\<lambda>r. userID r = u) rs)"
      by (rule last_in_set)
    then show "userID (last (filter (\<lambda>r. userID r = u) rs)) = u" by simp
  qed
  then have "map (\<lambda>u. userID (last (filter (\<lambda>r. userID r = u) rs))) (sort (remdups (map userID rs)))
      = sort (remdups (map userID rs))"
    by (intro map_idI) blast
  then show ?thesis
    unfolding leave_one_out_test_def by (simp add: comp_def)
qed

lemma count_distinct_key:
  assumes "distinct (map f xs)" and "k \<in> f ` set xs"
  shows "length (filter (\<lambda>x. f x = k) xs) = 1"
  using assms
proof (induction xs)
  case Nil
  then show ?case by simp
next
  case (Cons x xs)
  show ?case
  proof (cases "f x = k")
    case True
    with Cons.prems(1) have "filter (\<lambda>x. f x = k) xs = []"
      by (auto simp: filter_empty_conv image_iff)
    with True show ?thesis by simp
  next
    case False
    with Cons show ?thesis by auto
  qed
qed

text \<open>
  C3. When each user's rows stand in the test partition in chronological order (what the
  chronological split delivers), the leave-one-out test set built from the filtered
  partition has the same users as the filtered partition and exactly one record for
  each of them; that record is a row of the filtered partition, namely the user's last
  one, and no row of that user in the filtered partition has a later timestamp. The
  test loader then makes one batch for every record, in the same order: the record's
  item first with label 1, followed by the sampled negatives with label 0, all for the
  record's user.
\<close>

theorem leave_one_out_keeps_last_interaction:
  assumes "chrono_ordered test"
  shows "userID ` set (leave_one_out_test (filter_test train test)) = userID ` set (filter_test train test) \<and>
    (\<forall>u \<in> userID ` set (filter_test train test).
       length (filter (\<lambda>r. userID r = u) (leave_one_out_test (filter_test train test))) = 1) \<and>
    (\<forall>r \<in> set (leave_one_out_test (filter_test train test)).
       r \<in> set (filter_test train test) \<and>
       r = last (filter (\<lambda>s. userID s = userID r) (filter_test train test)) \<and>
       (\<forall>s \<in> set (filter_test train test). userID s = userID r \<longrightarrow> timestamp s \<le> timestamp r)) \<and>
    map (\<lambda>(us, its, ls). (set us, its, ls))
        (test_loader negatives (leave_one_out_test (filter_test train test)))
      = map (\<lambda>r. ({userID r}, itemID r # negatives r, 1 # replicate (length (negatives r)) 0))
            (leave_one_out_test (filter_test train test))"
proof -
  let ?ft = "filter_test train test"
  let ?loo = "leave_one_out_test ?ft"
  have ord: "chrono_ordered ?ft"
    using assms by (simp add: filter_test_eq chrono_ordered_filter)
  have ids: "map userID ?loo = sort (remdups (map userID ?ft))"
    by (rule userID_leave_one_out)
  have users: "userID ` set ?loo = userID ` set ?ft"
  proof -
    have "userID ` set ?loo = set (map userID ?loo)" by simp
    also have "\<dots> = userID ` set ?ft" unfolding ids by simp
    finally show ?thesis .
  qed
  have dist: "distinct (map userID ?loo)"
    unfolding ids by simp
  have one: "\<forall>u \<in> userID ` set ?ft. length (filter (\<lambda>r. userID r = u) ?loo) = 1"
    using count_distinct_key[OF dist] users by blast
  have lastp: "\<forall>r \<in> set ?loo. r \<in> set ?ft \<and> r = last (filter (\<lambda>s. userID s = userID r) ?ft) \<and>
       (\<forall>s \<in> set ?ft. userID s = userID r \<longrightarrow> timestamp s \<le> timestamp r)"
  proof
    fix r assume "r \<in> set ?loo"
    then obtain u where u: "u \<in> userID ` set ?ft" and r: "r = last (filter (\<lambda>s. userID s = u) ?ft)"
      by (auto simp: leave_one_out_test_def)
    from last_of_user[OF ord u] r
    show "r \<in> set ?ft \<and> r = last (filter (\<lambda>s. userID s = userID r) ?ft) \<and>
       (\<forall>s \<in> set ?ft. userID s = userID r \<longrightarrow> timestamp s \<le> timestamp r)"
      by auto
  qed
  have loader: "map (\<lambda>(us, its, ls). (set us, its, ls)) (test_loader negatives ?loo)
      = map (\<lambda>r. ({userID r}, itemID r # negatives r, 1 # replicate (length (negatives r)) 0)) ?loo"
    by (auto simp: test_loader_def comp_def)
  from users one lastp loader show ?thesis by blast
qed


theorem leave_one_out_keeps_last_interaction_witness:
  "chrono_ordered
     [\<lparr>userID = 1, itemID = 11, rating = 4, timestamp = 5\<rparr>,
      \<lparr>userID = 1, itemID = 10, rating = 2, timestamp = 7\<rparr>,
      \<lparr>userID = 2, itemID = 10, rating = 1, timestamp = 6\<rparr>,
      \<lparr>userID = 3, itemID = 10, rating = 5, timestamp = 8\<rparr>,
      \<lparr>userID = 2, itemID = 12, rating = 5, timestamp = 9\<rparr>] \<and>
   userID ` set (leave_one_out_test (filter_test
     [\<lparr>userID = 1, itemID = 10, rating = 5, timestamp = 1\<rparr>,
      \<lparr>userID = 2, itemID = 11, rating = 3, timestamp = 2\<rparr>]
     [\<lparr>userID = 1, itemID = 11, rating = 4, timestamp = 5\<rparr>,
      \<lparr>userID = 1, itemID = 10, rating = 2, timestamp = 7\<rparr>,
      \<lparr>userID = 2, itemID = 10, rating = 1, timestamp = 6\<rparr>,
      \<lparr>userID = 3, itemID = 10, rating = 5, timestamp = 8\<rparr>,
      \<lparr>userID = 2, itemID = 12, rating = 5, timestamp = 9\<rparr>])) = {1, 2} \<and>
   leave_one_out_test (filter_test
     [\<lparr>userID = 1, itemID = 10, rating = 5, timestamp = 1\<rparr>,
      \<lparr>userID = 2, itemID = 11, rating = 3, timestamp = 2\<rparr>]
     [\<lparr>userID = 1, itemID = 11, rating = 4, timestamp = 5\<rparr>,
      \<lparr>userID = 1, itemID = 10, rating = 2, timestamp = 7\<rparr>,
      \<lparr>userID = 2, itemID = 10, rating = 1, timestamp = 6\<rparr>,
      \<lparr>userID = 3, itemID = 10, rating = 5, timestamp = 8\<rparr>,
      \<lparr>userID = 2, itemID = 12, rating = 5, timestamp = 9\<rparr>])
     = [\<lparr>userID = 1, itemID = 10, rating = 2, timestamp = 7\<rparr>,
        \<lparr>userID = 2, itemID = 10, rating = 1, timestamp = 6\<rparr>]"
proof -
  let ?train = "[\<lparr>userID = 1, itemID = 10, rating = 5, timestamp = 1\<rparr>,
      \<lparr>userID = 2, itemID = 11, rating = 3, timestamp = 2\<rparr>]"
  let ?test = "[\<lparr>userID = 1, itemID = 11, rating = 4, timestamp = 5\<rparr>,
      \<lparr>userID = 1, itemID = 10, rating = 2, timestamp = 7\<rparr>,
      \<lparr>userID = 2, itemID = 10, rating = 1, timestamp = 6\<rparr>,
      \<lparr>userID = 3, itemID = 10, rating = 5, timestamp = 8\<rparr>,
      \<lparr>userID = 2, itemID = 12, rating = 5, timestamp = 9\<rparr>]"
  have ord: "chrono_ordered ?test"
    by simp
  have ft: "filter_test ?train ?test =
      [\<lparr>userID = 1, itemID = 11, rating = 4, timestamp = 5\<rparr>,
       \<lparr>userID = 1, itemID = 10, rating = 2, timestamp = 7\<rparr>,
       \<lparr>userID = 2, itemID = 10, rating = 1, timestamp = 6\<rparr>]"
    by (simp add: filter_test_def isin_def unique_def)
  have loo: "leave_one_out_test (filter_test ?train ?test)
     = [\<lparr>userID = 1, itemID = 10, rating = 2, timestamp = 7\<rparr>,
        \<lparr>userID = 2, itemID = 10, rating = 1, timestamp = 6\<rparr>]"
    unfolding ft by (simp add: leave_one_out_test_def)
  from leave_one_out_keeps_last_interaction [OF ord, of ?train "\<lambda>r. []"]
  have "userID ` set (leave_one_out_test (filter_test ?train ?test))
          = userID ` set (filter_test ?train ?test)"
    by blast
  then have "userID ` set (leave_one_out_test (filter_test ?train ?test)) = {1, 2}"
    unfolding ft by simp
  with ord loo show ?thesis by blast
qed

section \<open>The leave-one-out evaluation loop\<close>

lemma sum_indicator_count:
  "sum_list (map (\<lambda>x. if P x then 1 else 0) xs) = length (filter P xs)"
  by (induction xs) auto

lemma rank_squeeze:
  assumes "2 \<le> length scores"
  shows "rank (squeeze scores) = Inr (n_scores_ge_first scores)"
proof -
  from assms obtain x0 x1 rest where s: "scores = x0 # x1 # rest"
    by (cases scores; cases "tl scores") auto
  show ?thesis
    unfolding s squeeze_def rank_def n_scores_ge_first_def
    by (simp add: sum_indicator_count)
qed

lemma eval_step_long:
  assumes "2 \<le> length scores"
  shows "eval_step k scores s =
           Inr (s\<lparr>ndcgs := ndcgs s @ [ndcg_of k scores], hit_ratio := hit_ratio s @ [hit_of k scores]\<rparr>)"
  by (simp add: eval_step_def rank_squeeze[OF assms] hit_of_def ndcg_of_def)

lemma eval_loop_long:
  assumes "\<forall>(us, its, ls) \<in> set batches. 2 \<le> length (predict us its)"
  shows "eval_loop k predict batches s =
           Inr (s\<lparr>ndcgs := ndcgs s @ map (\<lambda>(us, its, ls). ndcg_of k (predict us its)) batches,
                  hit_ratio := hit_ratio s @ map (\<lambda>(us, its, ls). hit_of k (predict us its)) batches\<rparr>)"
  using assms
proof (induction batches arbitrary: s)
  case Nil
  then show ?case by simp
next
  case (Cons b bs)
  obtain us its ls where b: "b = (us, its, ls)" by (cases b) auto
  from Cons.prems have len: "2 \<le> length (predict us its)"
    and rest: "\<forall>(us, its, ls) \<in> set bs. 2 \<le> length (predict us its)"
    by (auto simp: b)
  show ?case
    by (simp add: b eval_step_long[OF len] Cons.IH[OF rest])
qed

lemma sum_hits_count:
  "sum_list (map (real \<circ> (\<lambda>b. if P b then (1::nat) else 0)) bs) = real (length (filter P bs))"
  by (induction bs) auto


text \<open>
  C2. When every test list has 101 scores (the positive item's first) and there is at
  least one list, the loop runs through; the hit indicator it records for a list is 1
  if at most 10 scores of the list are greater than or equal to the positive item's
  score and 0 otherwise; and the hit ratio it reports is the mean of the indicators,
  the number of lists with a hit divided by the number of lists.
\<close>

theorem hit_ratio_is_top10_rate:
  assumes "batches \<noteq> []"
    and "\<forall>(us, its, ls) \<in> set batches. length (predict us its) = 101"
  shows "\<exists>s nd.
           eval_loop TOP_K predict batches \<lparr>ndcgs = [], hit_ratio = []\<rparr> = Inr s \<and>
           hit_ratio s =
             map (\<lambda>(us, its, ls). if n_scores_ge_first (predict us its) \<le> 10 then 1 else 0) batches \<and>
           leave_one_out_eval predict batches =
             Inr (nd, Some (real (length (filter (\<lambda>(us, its, ls). n_scores_ge_first (predict us its) \<le> 10) batches))
                            / real (length batches)))"
proof -
  let ?init = "\<lparr>ndcgs = [], hit_ratio = []\<rparr>"
  let ?hit = "\<lambda>(us, its, ls). n_scores_ge_first (predict us its) \<le> 10"
  let ?s = "\<lparr>ndcgs = map (\<lambda>(us, its, ls). ndcg_of TOP_K (predict us its)) batches,
             hit_ratio = map (\<lambda>(us, its, ls). hit_of TOP_K (predict us its)) batches\<rparr>"
  from assms(2) have long: "\<forall>(us, its, ls) \<in> set batches. 2 \<le> length (predict us its)"
    by auto
  have loop: "eval_loop TOP_K predict batches ?init = Inr ?s"
    by (simp add: eval_loop_long[OF long])
  have hits: "hit_ratio ?s = map (\<lambda>b. if ?hit b then 1 else 0) batches"
    by (auto simp: hit_of_def TOP_K_def)
  have "mean (map real (hit_ratio ?s)) =
          Some (real (length (filter ?hit batches)) / real (length batches))"
    unfolding hits using assms(1) by (simp add: mean_def sum_hits_count)
  then have "leave_one_out_eval predict batches =
          Inr (mean (ndcgs ?s), Some (real (length (filter ?hit batches)) / real (length batches)))"
    by (simp add: leave_one_out_eval_def loop)
  moreover have "hit_ratio ?s =
      map (\<lambda>(us, its, ls). if n_scores_ge_first (predict us its) \<le> 10 then 1 else 0) batches"
    using hits by (simp add: case_prod_unfold)
  ultimately show ?thesis
    using loop by blast
qed

theorem hit_ratio_is_top10_rate_witness:
  "[([7], [3], [1::int])] \<noteq> [] \<and>
   length ((\<lambda>us its. real_of_int (hd its) # replicate 100 0) [7::int] [3::int]) = 101 \<and>
   (\<exists>nd. leave_one_out_eval (\<lambda>us its. real_of_int (hd its) # replicate 100 0) [([7], [3], [1])]
           = Inr (nd, Some 1))"
  using hit_ratio_is_top10_rate [of "[([7], [3], [1])]" "\<lambda>us its. real_of_int (hd its) # replicate 100 0"]
  by (auto simp: n_scores_ge_first_def)

text \<open>
  C1, evaluated on the list of 101 scores whose first score 1 is the only one that is at
  least 1 (rank 1): the loop records \<open>1 / ln 2\<close>, which is greater than 1, where the
  closed form \<open>1 / log\<^sub>2 (rank + 1)\<close> gives 1.
\<close>

theorem ndcg_at_rank_one_exceeds_one:
  "eval_step TOP_K (1 # replicate 100 0) \<lparr>ndcgs = [], hit_ratio = []\<rparr>
     = Inr \<lparr>ndcgs = [1 / ln 2], hit_ratio = [1]\<rparr> \<and>
   (1::real) / ln 2 \<noteq> 1 / log 2 (1 + 1) \<and> (1::real) < 1 / ln 2"
proof -
  have "n_scores_ge_first (1 # replicate 100 0) = 1"
    by (simp add: n_scores_ge_first_def)
  then have "eval_step TOP_K (1 # replicate 100 0) \<lparr>ndcgs = [], hit_ratio = []\<rparr>
     = Inr \<lparr>ndcgs = [1 / ln 2], hit_ratio = [1]\<rparr>"
    by (simp add: eval_step_long ndcg_of_def hit_of_def TOP_K_def)
  moreover have "(1::real) < 1 / ln 2"
    using ln_2_less_1 by (simp add: ln_gt_zero)
  moreover have "(1::real) / log 2 (1 + 1) = 1"
    by simp
  ultimately show ?thesis by simp
qed


section \<open>Predictions on all unrated pairs\<close>

lemma predict_all_acc:
  "predict_all predict item us (users, items, preds) =
     (users @ concat (map (\<lambda>u. replicate (length item) u) us),
      items @ concat (map (\<lambda>u. item) us),
      preds @ concat (map (\<lambda>u. predict (replicate (length item) u) item) us))"
  by (induction us arbitrary: users items preds) (simp_all add: Let_def)

lemma zip_block:
  assumes "length ps = length item"
  shows "map (\<lambda>(u, i, p). \<lparr>p_userID = u, p_itemID = i, p_prediction = p\<rparr>)
           (zip (replicate (length item) u) (zip item ps))
         = map (\<lambda>(i, p). \<lparr>p_userID = u, p_itemID = i, p_prediction = p\<rparr>) (zip item ps)"
  using assms by (intro nth_equalityI) auto

lemma DataFrame_cross:
  assumes "\<forall>u \<in> set us. length (predict (replicate (length item) u) item) = length item"
  shows "DataFrame (concat (map (\<lambda>u. replicate (length item) u) us))
                   (concat (map (\<lambda>u. item) us))
                   (concat (map (\<lambda>u. predict (replicate (length item) u) item) us))
         = Inr (cross_frame predict item us)"
  using assms
proof (induction us)
  case Nil
  then show ?case by (simp add: DataFrame_def cross_frame_def)
next
  case (Cons u us)
  let ?U = "concat (map (\<lambda>u. replicate (length item) u) us)"
  let ?I = "concat (map (\<lambda>u. item) us)"
  let ?P = "concat (map (\<lambda>u. predict (replicate (length item) u) item) us)"
  from Cons.prems have lu: "length (predict (replicate (length item) u) item) = length item"
    and rest: "\<forall>u \<in> set us. length (predict (replicate (length item) u) item) = length item"
    by auto
  from Cons.IH[OF rest] have lens: "length ?U = length ?I \<and> length ?I = length ?P"
    and rows: "map (\<lambda>(u, i, p). \<lparr>p_userID = u, p_itemID = i, p_prediction = p\<rparr>) (zip ?U (zip ?I ?P))
                 = cross_frame predict item us"
    by (auto simp: DataFrame_def split: if_splits)
  have "DataFrame (replicate (length item) u @ ?U) (item @ ?I)
                  (predict (replicate (length item) u) item @ ?P)
        = Inr (map (\<lambda>(i, p). \<lparr>p_userID = u, p_itemID = i, p_prediction = p\<rparr>)
                   (zip item (predict (replicate (length item) u) item))
               @ cross_frame predict item us)"
    using lens lu by (simp add: DataFrame_def zip_block rows)
  then show ?case by (simp add: cross_frame_def)
qed


lemma unrated_of_group:
  "filter (\<lambda>m. m_rating m = None) (merge_group left right k) =
     (if k \<in> (\<lambda>l. (userID l, itemID l)) ` set left then []
      else map right_only (filter (\<lambda>r. (p_userID r, p_itemID r) = k) right))"
proof -
  have none: "filter (\<lambda>m. m_rating m = None) (map right_only rs) = map right_only rs" for rs
    by (induction rs) (simp_all add: right_only_def)
  have left: "filter (\<lambda>m. m_rating m = None) (map left_only ls) = []" for ls
    by (induction ls) (simp_all add: left_only_def)
  have both: "filter (\<lambda>m. m_rating m = None) (concat (map (\<lambda>l. map (both l) rs) ls)) = []" for ls rs
    by (induction ls) (simp_all add: both_def filter_empty_conv)
  have ls: "filter (\<lambda>l. (userID l, itemID l) = k) left = [] \<longleftrightarrow> k \<notin> (\<lambda>l. (userID l, itemID l)) ` set left"
    by (auto simp: filter_empty_conv)
  show ?thesis
  proof (cases "k \<in> (\<lambda>l. (userID l, itemID l)) ` set left")
    case True
    with ls have "filter (\<lambda>l. (userID l, itemID l) = k) left \<noteq> []" by simp
    with True show ?thesis
      by (simp add: merge_group_def Let_def left both)
  next
    case False
    with ls have "filter (\<lambda>l. (userID l, itemID l) = k) left = []" by simp
    with False show ?thesis
      by (simp add: merge_group_def Let_def none)
  qed
qed

lemma unrated_of_groups:
  "filter (\<lambda>m. m_rating m = None) (concat (map (merge_group left right) ks)) =
     map right_only
       (concat (map (\<lambda>k. filter (\<lambda>r. (p_userID r, p_itemID r) = k) right)
                    (filter (\<lambda>k. k \<notin> (\<lambda>l. (userID l, itemID l)) ` set left) ks)))"
  by (induction ks) (simp_all add: unrated_of_group)

lemma unrated_of_merge:
  "filter (\<lambda>m. m_rating m = None) (merge_outer left right) =
     map right_only
       (concat (map (\<lambda>k. filter (\<lambda>r. (p_userID r, p_itemID r) = k) right)
                    (filter (\<lambda>k. k \<notin> (\<lambda>l. (userID l, itemID l)) ` set left)
                       (unique (map (\<lambda>l. (userID l, itemID l)) left
                                @ map (\<lambda>r. (p_userID r, p_itemID r)) right)))))"
  unfolding merge_outer_def by (rule unrated_of_groups)

lemma all_predictions_eq:
  assumes "\<forall>u \<in> set (unique (map userID train)).
             length (predict (replicate (length (unique (map itemID train))) u) (unique (map itemID train)))
               = length (unique (map itemID train))"
  shows "all_predictions predict train =
           Inr (map drop_rating
                 (filter (\<lambda>m. m_rating m = None)
                    (merge_outer train
                       (cross_frame predict (unique (map itemID train)) (unique (map userID train))))))"
proof -
  have "DataFrame (concat (map (\<lambda>u. replicate (length (unique (map itemID train))) u) (unique (map userID train))))
                  (concat (map (\<lambda>u. unique (map itemID train)) (unique (map userID train))))
                  (concat (map (\<lambda>u. predict (replicate (length (unique (map itemID train))) u) (unique (map itemID train)))
                               (unique (map userID train))))
        = Inr (cross_frame predict (unique (map itemID train)) (unique (map userID train)))"
    using assms by (rule DataFrame_cross)
  then show ?thesis
    unfolding all_predictions_def Let_def
    by (simp add: predict_all_acc)
qed

lemma groups_distinct:
  assumes "distinct ks" and "distinct (map f xs)"
  shows "distinct (map f (concat (map (\<lambda>k. filter (\<lambda>r. f r = k) xs) ks)))"
  using assms(1)
proof (induction ks)
  case Nil
  then show ?case by simp
next
  case (Cons k ks)
  then have k: "k \<notin> set ks" and rest: "distinct (map f (concat (map (\<lambda>k. filter (\<lambda>r. f r = k) xs) ks)))"
    by simp_all
  have first: "distinct (map f (filter (\<lambda>r. f r = k) xs))"
    using assms(2) by (rule distinct_map_filter)
  have "set (map f (filter (\<lambda>r. f r = k) xs)) \<subseteq> {k}"
    by auto
  moreover have "set (map f (concat (map (\<lambda>k. filter (\<lambda>r. f r = k) xs) ks))) \<subseteq> set ks"
    by auto
  ultimately have "set (map f (filter (\<lambda>r. f r = k) xs))
      \<inter> set (map f (concat (map (\<lambda>k. filter (\<lambda>r. f r = k) xs) ks))) = {}"
    using k by blast
  with first rest show ?case
    by (simp only: list.map concat.simps map_append distinct_append)
qed

lemma groups_set:
  "set (concat (map (\<lambda>k. filter (\<lambda>r. f r = k) xs) ks)) = {r \<in> set xs. f r \<in> set ks}"
  by auto

lemma keys_cross_frame:
  assumes "\<forall>u \<in> set us. length (predict (replicate (length item) u) item) = length item"
  shows "map (\<lambda>r. (p_userID r, p_itemID r)) (cross_frame predict item us) = List.product us item"
  using assms
proof (induction us)
  case Nil
  then show ?case by (simp add: cross_frame_def)
next
  case (Cons u us)
  from Cons.prems have lu: "length (predict (replicate (length item) u) item) = length item"
    by simp
  have "map (\<lambda>r. (p_userID r, p_itemID r))
          (map (\<lambda>(i, p). \<lparr>p_userID = u, p_itemID = i, p_prediction = p\<rparr>)
               (zip item (predict (replicate (length item) u) item))) = map (Pair u) item"
    using lu by (intro nth_equalityI) auto
  with Cons show ?case by (simp add: cross_frame_def)
qed

lemma prediction_cross_frame:
  assumes "r \<in> set (cross_frame predict item us)"
  shows "(p_itemID r, p_prediction r) \<in> set (zip item (predict (replicate (length item) (p_userID r)) item))"
  using assms by (auto simp: cross_frame_def)

lemma image_Collect_diff:
  assumes "\<And>r. P r \<longleftrightarrow> f r \<notin> B"
  shows "f ` {r \<in> A. P r} = f ` A - B"
  using assms by auto

text \<open>
  C10. When the model returns one score for each pair of a call, the frame
  \<^verbatim>\<open>all_predictions\<close> is built, no pair occurs in it twice, its (userID, itemID)
  pairs are exactly the pairs of a training user and a training item that are not an
  interaction of the training frame, and each row carries the score the model returned
  for its item in the call for its user.
\<close>

theorem all_predictions_unrated_pairs:
  assumes "\<forall>u \<in> set (unique (map userID train)).
             length (predict (replicate (length (unique (map itemID train))) u) (unique (map itemID train)))
               = length (unique (map itemID train))"
  shows "\<exists>rows. all_predictions predict train = Inr rows \<and>
           distinct (map (\<lambda>r. (a_userID r, a_itemID r)) rows) \<and>
           (\<lambda>r. (a_userID r, a_itemID r)) ` set rows
             = (userID ` set train \<times> itemID ` set train) - (\<lambda>l. (userID l, itemID l)) ` set train \<and>
           (\<forall>r \<in> set rows. \<exists>p. a_prediction r = Some p \<and>
              (a_itemID r, p) \<in> set (zip (unique (map itemID train))
                 (predict (replicate (length (unique (map itemID train))) (a_userID r))
                          (unique (map itemID train)))))"
proof -
  let ?item = "unique (map itemID train)"
  let ?us = "unique (map userID train)"
  let ?frame = "cross_frame predict ?item ?us"
  let ?akey = "\<lambda>r. (a_userID r, a_itemID r)"
  let ?pkey = "\<lambda>r. (p_userID r, p_itemID r)"
  let ?lkey = "\<lambda>l. (userID l, itemID l)"
  let ?ks = "filter (\<lambda>k. k \<notin> ?lkey ` set train) (unique (map ?lkey train @ map ?pkey ?frame))"
  let ?G = "concat (map (\<lambda>k. filter (\<lambda>r. ?pkey r = k) ?frame) ?ks)"
  let ?rows = "map drop_rating (map right_only ?G)"
  have "all_predictions predict train
      = Inr (map drop_rating (filter (\<lambda>m. m_rating m = None) (merge_outer train ?frame)))"
    using assms by (rule all_predictions_eq)
  then have res: "all_predictions predict train = Inr ?rows"
    by (simp only: unrated_of_merge)
  have keys: "map ?pkey ?frame = List.product ?us ?item"
    using assms by (rule keys_cross_frame)
  have dist_frame: "distinct (map ?pkey ?frame)"
    unfolding keys by (simp add: distinct_product distinct_unique)
  have set_frame: "?pkey ` set ?frame = userID ` set train \<times> itemID ` set train"
  proof -
    have "?pkey ` set ?frame = set (map ?pkey ?frame)" by simp
    also have "\<dots> = userID ` set train \<times> itemID ` set train"
      unfolding keys by (simp add: set_unique)
    finally show ?thesis .
  qed
  have akeys: "map ?akey ?rows = map ?pkey ?G"
    by (simp add: drop_rating_def right_only_def comp_def)
  have d: "distinct (map ?akey ?rows)"
    unfolding akeys
    using dist_frame by (intro groups_distinct distinct_filter distinct_unique)
  have setG: "set ?G = {r \<in> set ?frame. ?pkey r \<notin> ?lkey ` set train}"
    unfolding groups_set by (auto simp: set_unique)
  have "?akey ` set ?rows = set (map ?akey ?rows)" by (simp only: set_map)
  also have "\<dots> = ?pkey ` set ?G"
    unfolding akeys by (simp only: set_map)
  also have "\<dots> = ?pkey ` {r \<in> set ?frame. ?pkey r \<notin> ?lkey ` set train}"
    by (simp only: setG)
  also have "\<dots> = ?pkey ` set ?frame - ?lkey ` set train"
    by (rule image_Collect_diff) simp
  finally have s: "?akey ` set ?rows
      = (userID ` set train \<times> itemID ` set train) - (\<lambda>l. (userID l, itemID l)) ` set train"
    unfolding set_frame .
  have p: "\<forall>r \<in> set ?rows. \<exists>p. a_prediction r = Some p \<and>
              (a_itemID r, p) \<in> set (zip ?item (predict (replicate (length ?item) (a_userID r)) ?item))"
  proof
    fix r assume "r \<in> set ?rows"
    then obtain q where q: "q \<in> set ?frame" and r: "r = drop_rating (right_only q)"
      unfolding set_map groups_set by auto
    from prediction_cross_frame[OF q]
    show "\<exists>p. a_prediction r = Some p \<and>
              (a_itemID r, p) \<in> set (zip ?item (predict (replicate (length ?item) (a_userID r)) ?item))"
      by (simp add: r drop_rating_def right_only_def)
  qed
  from res d s p show ?thesis by blast
qed


theorem all_predictions_unrated_pairs_witness:
  "\<exists>rows. all_predictions (\<lambda>us its. map2 (\<lambda>u i. real_of_int (10 * u + i)) us its)
      [\<lparr>userID = 2, itemID = 7, rating = 4, timestamp = 100\<rparr>,
       \<lparr>userID = 1, itemID = 5, rating = 3, timestamp = 101\<rparr>,
       \<lparr>userID = 2, itemID = 5, rating = 3, timestamp = 102\<rparr>] = Inr rows \<and>
     distinct (map (\<lambda>r. (a_userID r, a_itemID r)) rows) \<and>
     (\<lambda>r. (a_userID r, a_itemID r)) ` set rows = {(1, 7)}"
proof -
  let ?predict = "\<lambda>us its. map2 (\<lambda>u i. real_of_int (10 * u + i)) us its"
  let ?train = "[\<lparr>userID = 2, itemID = 7, rating = 4, timestamp = 100\<rparr>,
       \<lparr>userID = 1, itemID = 5, rating = 3, timestamp = 101\<rparr>,
       \<lparr>userID = 2, itemID = 5, rating = 3, timestamp = 102\<rparr>]"
  have h: "\<forall>u \<in> set (unique (map userID ?train)).
      length (?predict (replicate (length (unique (map itemID ?train))) u) (unique (map itemID ?train)))
        = length (unique (map itemID ?train))"
    by simp
  have pairs: "(userID ` set ?train \<times> itemID ` set ?train) - (\<lambda>l. (userID l, itemID l)) ` set ?train
      = {(1, 7)}"
    by auto
  from h all_predictions_unrated_pairs [where train = ?train and predict = ?predict]
  show ?thesis unfolding pairs by blast
qed

section \<open>The sparse-format iterator\<close>

lemma split_on_not_Nil: "split_on c s \<noteq> []"
proof (induction s)
  case Nil
  then show ?case by simp
next
  case (Cons a s)
  then show ?case by (cases "split_on c s") simp_all
qed

lemma split_on_no_sep: "c \<notin> set s \<Longrightarrow> split_on c s = [s]"
  by (induction s) auto

lemma split_on_append: "c \<notin> set a \<Longrightarrow> split_on c (a @ c # b) = a # split_on c b"
  by (induction a) auto

lemma split_join:
  assumes "c \<notin> set w" and "\<forall>t \<in> set ws. c \<notin> set t"
  shows "split_on c (w @ concat (map (\<lambda>t. c # t) ws)) = w # ws"
  using assms
proof (induction ws arbitrary: w)
  case Nil
  then show ?case by (simp add: split_on_no_sep)
next
  case (Cons t ts)
  then have "split_on c (t @ concat (map (\<lambda>t. c # t) ts)) = t # ts"
    by simp
  with Cons.prems(1) show ?case
    by (simp add: split_on_append)
qed

lemma digit_cases:
  assumes "d < (10::nat)"
  shows "d = 0 \<or> d = 1 \<or> d = 2 \<or> d = 3 \<or> d = 4 \<or> d = 5 \<or> d = 6 \<or> d = 7 \<or> d = 8 \<or> d = 9"
  using assms by arith

lemma digit_char_digit:
  assumes "d < 10"
  shows "is_digit (digit_char d)" and "digit_val (digit_char d) = d"
    and "digit_char d \<noteq> CHR '' ''" and "digit_char d \<noteq> CHR '':''" and "digit_char d \<noteq> CHR ''.''"
  using digit_cases[OF assms]
  by (elim disjE; simp add: digit_char_def is_digit_def digit_val_def)+

lemma numeral_text_chars:
  assumes "digits ds" and "ch \<in> set (numeral_text ds)"
  shows "is_digit ch \<and> ch \<noteq> CHR '' '' \<and> ch \<noteq> CHR '':'' \<and> ch \<noteq> CHR ''.''"
proof -
  from assms obtain d where "d < 10" and "ch = digit_char d"
    by (auto simp: digits_def numeral_text_def list_all_iff)
  then show ?thesis
    by (simp add: digit_char_digit)
qed

lemma numeral_text_no_sep:
  assumes "digits ds"
  shows "CHR '' '' \<notin> set (numeral_text ds)" and "CHR '':'' \<notin> set (numeral_text ds)"
    and "CHR ''.'' \<notin> set (numeral_text ds)"
  using numeral_text_chars[OF assms] by blast+

lemma foldl_numeral_text:
  assumes "digits ds"
  shows "foldl (\<lambda>n ch. 10 * n + digit_val ch) a (numeral_text ds) = a * 10 ^ length ds + numeral_value ds"
  using assms
proof (induction ds arbitrary: a)
  case Nil
  then show ?case by (simp add: numeral_text_def)
next
  case (Cons d ds)
  then have d: "d < 10" and ds: "digits ds"
    by (simp_all add: digits_def)
  have "foldl (\<lambda>n ch. 10 * n + digit_val ch) a (numeral_text (d # ds))
      = foldl (\<lambda>n ch. 10 * n + digit_val ch) (10 * a + d) (numeral_text ds)"
    by (simp add: numeral_text_def digit_char_digit(2)[OF d])
  also have "\<dots> = (10 * a + d) * 10 ^ length ds + numeral_value ds"
    using ds by (rule Cons.IH)
  finally show ?case
    by (simp add: algebra_simps)
qed

lemma parse_nat_numeral:
  assumes "is_numeral ds"
  shows "parse_nat (numeral_text ds) = Some (numeral_value ds)"
proof -
  from assms have ne: "ds \<noteq> []" and ds: "digits ds"
    by (simp_all add: is_numeral_def)
  from ne have "numeral_text ds \<noteq> []"
    by (simp add: numeral_text_def)
  moreover have "list_all is_digit (numeral_text ds)"
    unfolding list_all_iff using numeral_text_chars[OF ds] by blast
  ultimately show ?thesis
    by (simp add: parse_nat_def foldl_numeral_text[OF ds])
qed

lemma fraction_value_numeral:
  "real (numeral_value q) / 10 ^ length q = fraction_value q"
  by (induction q) (simp_all add: add_divide_distrib)

lemma parse_value_text:
  assumes "is_value (w, q)"
  shows "parse_value (value_text (w, q)) = Some (value_of (w, q))"
proof -
  from assms have w: "is_numeral w" and q: "digits q"
    by (simp_all add: is_value_def)
  from w have dw: "digits w"
    by (simp add: is_numeral_def)
  show ?thesis
  proof (cases "q = []")
    case True
    have "split_on CHR ''.'' (numeral_text w) = [numeral_text w]"
      using numeral_text_no_sep(3)[OF dw] by (rule split_on_no_sep)
    then show ?thesis
      by (simp add: True value_text_def value_of_def parse_value_def parse_nat_numeral[OF w])
  next
    case False
    with q have nq: "is_numeral q"
      by (simp add: is_numeral_def)
    have "split_on CHR ''.'' (numeral_text w @ CHR ''.'' # numeral_text q)
        = numeral_text w # split_on CHR ''.'' (numeral_text q)"
      using numeral_text_no_sep(3)[OF dw] by (rule split_on_append)
    also have "split_on CHR ''.'' (numeral_text q) = [numeral_text q]"
      using numeral_text_no_sep(3)[OF q] by (rule split_on_no_sep)
    finally have sp: "split_on CHR ''.'' (value_text (w, q)) = [numeral_text w, numeral_text q]"
      by (simp add: value_text_def False)
    have len: "length (numeral_text q) = length q"
      by (simp add: numeral_text_def)
    show ?thesis
      by (simp add: parse_value_def sp parse_nat_numeral[OF w] parse_nat_numeral[OF nq]
          value_of_def len fraction_value_numeral)
  qed
qed

lemma value_text_no_sep:
  assumes "is_value (w, q)"
  shows "CHR '' '' \<notin> set (value_text (w, q))" and "CHR '':'' \<notin> set (value_text (w, q))"
proof -
  from assms have w: "digits w" and q: "digits q"
    by (simp_all add: is_value_def is_numeral_def)
  show "CHR '' '' \<notin> set (value_text (w, q))"
    using numeral_text_no_sep(1)[OF w] numeral_text_no_sep(1)[OF q]
    by (simp add: value_text_def)
  show "CHR '':'' \<notin> set (value_text (w, q))"
    using numeral_text_no_sep(2)[OF w] numeral_text_no_sep(2)[OF q]
    by (simp add: value_text_def)
qed

lemma good_triple_parts:
  assumes "good_triple field_count (f, i, w, q)"
  shows "is_numeral f" and "digits f" and "1 \<le> numeral_value f" and "numeral_value f \<le> field_count"
    and "is_numeral i" and "digits i" and "1 \<le> numeral_value i" and "is_value (w, q)"
  using assms by (simp_all add: good_triple_def is_numeral_def)

lemma split_triple:
  assumes "good_triple field_count (f, i, w, q)"
  shows "split_on CHR '':'' (triple_text (f, i, w, q))
           = [numeral_text f, numeral_text i, value_text (w, q)]"
proof -
  note g = good_triple_parts[OF assms]
  have "split_on CHR '':'' (numeral_text f @ concat (map (\<lambda>t. CHR '':'' # t) [numeral_text i, value_text (w, q)]))
      = numeral_text f # [numeral_text i, value_text (w, q)]"
    using numeral_text_no_sep(2)[OF g(2)] numeral_text_no_sep(2)[OF g(6)] value_text_no_sep(2)[OF g(8)]
    by (intro split_join) simp_all
  then show ?thesis by (simp add: triple_text_def)
qed

lemma parse_feature_ok:
  assumes "good_triple field_count (f, i, w, q)"
  shows "parse_feature n (triple_text (f, i, w, q))
           = Inr (numeral_value f, numeral_value i, value_of (w, q))"
proof -
  note g = good_triple_parts[OF assms]
  show ?thesis
    using g(3) g(7)
    by (simp add: parse_feature_def split_triple[OF assms] parse_nat_numeral[OF g(1)]
        parse_nat_numeral[OF g(5)] parse_value_text[OF g(8)])
qed

lemma triple_no_space:
  assumes "good_triple field_count (f, i, w, q)"
  shows "CHR '' '' \<notin> set (triple_text (f, i, w, q))"
proof -
  note g = good_triple_parts[OF assms]
  show ?thesis
    using numeral_text_no_sep(1)[OF g(2)] numeral_text_no_sep(1)[OF g(6)] value_text_no_sep(1)[OF g(8)]
    by (simp add: triple_text_def)
qed

lemma parse_features_ok:
  assumes "\<forall>t \<in> set triples. good_triple field_count t"
  shows "parse_features n (map triple_text triples) =
           Inr (map (\<lambda>(f, i, v). (numeral_value f, numeral_value i, value_of v)) triples)"
  using assms
proof (induction triples)
  case Nil
  then show ?case by simp
next
  case (Cons t ts)
  obtain f i w q where t: "t = (f, i, w, q)" by (cases t) auto
  from Cons.prems have g: "good_triple field_count (f, i, w, q)"
    by (simp add: t)
  from Cons have rest: "parse_features n (map triple_text ts) =
      Inr (map (\<lambda>(f, i, v). (numeral_value f, numeral_value i, value_of v)) ts)"
    by simp
  show ?case
    by (simp add: t parse_feature_ok[OF g] rest)
qed

lemma label_text:
  assumes "lab \<le> 1"
  shows "numeral_text [lab] = (if lab = 1 then ''1'' else ''0'')"
proof -
  from assms have "lab = 0 \<or> lab = 1" by arith
  then show ?thesis
    by (elim disjE; simp add: numeral_text_def digit_char_def)
qed

lemma parser_one_line_ok:
  assumes "well_formed field_count (lab, triples)"
  shows "parser_one_line n (line_text (lab, triples)) = Inr (record_of (lab, triples))"
proof -
  from assms have lab: "lab \<le> 1"
    and good: "\<forall>t \<in> set triples. good_triple field_count t"
    by (simp_all add: well_formed_def list_all_iff)
  define lt where "lt = numeral_text [lab]"
  have lt: "lt = (if lab = 1 then ''1'' else ''0'')"
    unfolding lt_def using lab by (rule label_text)
  then have nsp: "CHR '' '' \<notin> set lt" by simp
  have "\<forall>t \<in> set (map triple_text triples). CHR '' '' \<notin> set t"
  proof
    fix t assume "t \<in> set (map triple_text triples)"
    then obtain f i w q where m: "(f, i, w, q) \<in> set triples" and t: "t = triple_text (f, i, w, q)"
      by auto
    from good m have "good_triple field_count (f, i, w, q)" by blast
    then show "CHR '' '' \<notin> set t"
      unfolding t by (rule triple_no_space)
  qed
  with nsp have "split_on CHR '' '' (lt @ concat (map (\<lambda>t. CHR '' '' # t) (map triple_text triples)))
      = lt # map triple_text triples"
    by (rule split_join)
  then have sp: "split_on CHR '' '' (line_text (lab, triples)) = lt # map triple_text triples"
    by (simp add: line_text_def comp_def lt_def)
  have lab01: "lt = ''0'' \<or> lt = ''1''" and lab1: "(if lt = ''1'' then 1 else 0) = lab"
    using lab by (auto simp: lt)
  show ?thesis
    using lab01 by (simp add: parser_one_line_def sp parse_features_ok[OF good] record_of_def lab1)
qed

lemma record_of_in_fields:
  assumes "well_formed field_count l"
  shows "in_fields field_count (record_of l)"
  using assms
  by (cases l) (auto simp: well_formed_def in_fields_def record_of_def good_triple_def list_all_iff)

lemma zip_map_same: "zip (map f xs) (map g xs) = map (\<lambda>x. (f x, g x)) xs"
  by (induction xs) simp_all

lemma to_batch_parallel: "parallel_arrays (to_batch field_count rs)"
  by (simp add: parallel_arrays_def to_batch_def Let_def)

lemma map_zip_snd:
  "length xs = length ys \<Longrightarrow> map (\<lambda>(b, r). g r) (zip xs ys) = map g ys"
  by (induction xs ys rule: list_induct2) simp_all

lemma concat_zip_index:
  "concat (map (\<lambda>(b, r). g r) (zip [0..<length rs] rs)) = concat (map g rs)"
  by (simp add: map_zip_snd)

lemma to_batch_arrays:
  "labels (to_batch field_count rs) = map label rs"
  "field_indices (to_batch field_count rs) = concat (map (\<lambda>r. map (\<lambda>(fid, iid, x). fid - 1) (features r)) rs)"
  "feature_indices (to_batch field_count rs) = concat (map (\<lambda>r. map (\<lambda>(fid, iid, x). iid - 1) (features r)) rs)"
  "feature_values (to_batch field_count rs) = concat (map (\<lambda>r. map (\<lambda>(fid, iid, x). x) (features r)) rs)"
proof -
  show "labels (to_batch field_count rs) = map label rs"
    by (simp add: to_batch_def Let_def)
  have "field_indices (to_batch field_count rs)
      = concat (map (\<lambda>(b, r). map (\<lambda>(fid, iid, x). fid - 1) (features r)) (zip [0..<length rs] rs))"
    by (simp add: to_batch_def Let_def map_concat comp_def case_prod_unfold entries_of_def)
  then show "field_indices (to_batch field_count rs) = concat (map (\<lambda>r. map (\<lambda>(fid, iid, x). fid - 1) (features r)) rs)"
    by (simp only: concat_zip_index)
  have "feature_indices (to_batch field_count rs)
      = concat (map (\<lambda>(b, r). map (\<lambda>(fid, iid, x). iid - 1) (features r)) (zip [0..<length rs] rs))"
    by (simp add: to_batch_def Let_def map_concat comp_def case_prod_unfold entries_of_def)
  then show "feature_indices (to_batch field_count rs) = concat (map (\<lambda>r. map (\<lambda>(fid, iid, x). iid - 1) (features r)) rs)"
    by (simp only: concat_zip_index)
  have "feature_values (to_batch field_count rs)
      = concat (map (\<lambda>(b, r). map (\<lambda>(fid, iid, x). x) (features r)) (zip [0..<length rs] rs))"
    by (simp add: to_batch_def Let_def map_concat comp_def case_prod_unfold entries_of_def)
  then show "feature_values (to_batch field_count rs) = concat (map (\<lambda>r. map (\<lambda>(fid, iid, x). x) (features r)) rs)"
    by (simp only: concat_zip_index)
qed

lemma to_batch_rows:
  "layout_rows (to_batch field_count rs)
     = concat (map (\<lambda>(j, r). map (\<lambda>(fid, iid, x). j * field_count + (fid - 1)) (features r))
                   (zip [0..<length rs] rs))"
  by (simp add: to_batch_def Let_def map_concat comp_def case_prod_unfold entries_of_def)

lemma row_in_block:
  assumes "1 \<le> fid" and "fid \<le> (field_count::nat)"
  shows "(j * field_count + (fid - 1)) div field_count = j"
    and "(j * field_count + (fid - 1)) mod field_count = fid - 1"
    and "fid - 1 < field_count"
proof -
  from assms show lt: "fid - 1 < field_count" by arith
  then show "(j * field_count + (fid - 1)) div field_count = j" by simp
  from lt show "(j * field_count + (fid - 1)) mod field_count = fid - 1" by simp
qed

lemma to_batch_row_owners:
  assumes "\<forall>r \<in> set rs. in_fields field_count r"
  shows "map (\<lambda>row. row div field_count) (layout_rows (to_batch field_count rs)) = owners rs"
proof -
  have "map (\<lambda>row. row div field_count) (layout_rows (to_batch field_count rs))
      = concat (map (\<lambda>(j, r). map (\<lambda>(fid, iid, x). (j * field_count + (fid - 1)) div field_count) (features r))
                    (zip [0..<length rs] rs))"
    by (simp add: to_batch_rows map_concat comp_def case_prod_unfold)
  also have "\<dots> = concat (map (\<lambda>(j, r). replicate (length (features r)) j) (zip [0..<length rs] rs))"
  proof (rule arg_cong[where f = concat], rule map_cong[OF refl])
    fix p assume p: "p \<in> set (zip [0..<length rs] rs)"
    obtain j r where jr: "p = (j, r)" by (cases p) auto
    from p jr have "r \<in> set rs" by (auto dest: set_zip_rightD)
    with assms have rng: "\<forall>t \<in> set (features r). case t of (fid, iid, x) \<Rightarrow> 1 \<le> fid \<and> fid \<le> field_count"
      by (simp add: in_fields_def list_all_iff)
    have "map (\<lambda>(fid, iid, x). (j * field_count + (fid - 1)) div field_count) (features r)
        = map (\<lambda>t. j) (features r)"
    proof (rule map_cong[OF refl])
      fix t assume m: "t \<in> set (features r)"
      obtain fid iid x where t: "t = (fid, iid, x)" by (cases t) auto
      from rng m t have "1 \<le> fid" and "fid \<le> field_count" by auto
      then show "(case t of (fid, iid, x) \<Rightarrow> (j * field_count + (fid - 1)) div field_count) = j"
        by (simp add: t row_in_block(1))
    qed
    then show "(case p of (j, r) \<Rightarrow> map (\<lambda>(fid, iid, x). (j * field_count + (fid - 1)) div field_count) (features r))
        = (case p of (j, r) \<Rightarrow> replicate (length (features r)) j)"
      by (simp add: jr map_replicate_const)
  qed
  finally show ?thesis
    by (simp add: owners_def)
qed

lemma to_batch_row_fields:
  assumes "\<forall>r \<in> set rs. in_fields field_count r"
  shows "map (\<lambda>row. row mod field_count) (layout_rows (to_batch field_count rs))
           = field_indices (to_batch field_count rs)"
proof -
  have "map (\<lambda>row. row mod field_count) (layout_rows (to_batch field_count rs))
      = concat (map (\<lambda>(j, r). map (\<lambda>(fid, iid, x). (j * field_count + (fid - 1)) mod field_count) (features r))
                    (zip [0..<length rs] rs))"
    by (simp add: to_batch_rows map_concat comp_def case_prod_unfold)
  also have "\<dots> = concat (map (\<lambda>(j, r). map (\<lambda>(fid, iid, x). fid - 1) (features r)) (zip [0..<length rs] rs))"
  proof (rule arg_cong[where f = concat], rule map_cong[OF refl])
    fix p assume p: "p \<in> set (zip [0..<length rs] rs)"
    obtain j r where jr: "p = (j, r)" by (cases p) auto
    from p jr have "r \<in> set rs" by (auto dest: set_zip_rightD)
    with assms have rng: "\<forall>t \<in> set (features r). case t of (fid, iid, x) \<Rightarrow> 1 \<le> fid \<and> fid \<le> field_count"
      by (simp add: in_fields_def list_all_iff)
    have "map (\<lambda>(fid, iid, x). (j * field_count + (fid - 1)) mod field_count) (features r)
        = map (\<lambda>(fid, iid, x). fid - 1) (features r)"
    proof (rule map_cong[OF refl])
      fix t assume m: "t \<in> set (features r)"
      obtain fid iid x where t: "t = (fid, iid, x)" by (cases t) auto
      from rng m t have "1 \<le> fid" and "fid \<le> field_count" by auto
      then show "(case t of (fid, iid, x) \<Rightarrow> (j * field_count + (fid - 1)) mod field_count)
          = (case t of (fid, iid, x) \<Rightarrow> fid - 1)"
        by (simp add: t row_in_block(2))
    qed
    then show "(case p of (j, r) \<Rightarrow> map (\<lambda>(fid, iid, x). (j * field_count + (fid - 1)) mod field_count) (features r))
        = (case p of (j, r) \<Rightarrow> map (\<lambda>(fid, iid, x). fid - 1) (features r))"
      by (simp add: jr)
  qed
  also have "\<dots> = field_indices (to_batch field_count rs)"
    by (simp only: to_batch_arrays(2) concat_zip_index)
  finally show ?thesis .
qed

lemma to_batch_rows_bound:
  assumes "\<forall>r \<in> set rs. in_fields field_count r"
  shows "list_all (\<lambda>row. row < length rs * field_count) (layout_rows (to_batch field_count rs))"
  unfolding list_all_iff
proof
  fix row assume "row \<in> set (layout_rows (to_batch field_count rs))"
  then obtain j r fid iid x where jr: "(j, r) \<in> set (zip [0..<length rs] rs)"
    and t: "(fid, iid, x) \<in> set (features r)" and row: "row = j * field_count + (fid - 1)"
    by (auto simp: to_batch_rows)
  from jr have j: "j < length rs" and r: "r \<in> set rs"
    by (auto dest: set_zip_leftD set_zip_rightD)
  from assms r t have "1 \<le> fid" and "fid \<le> field_count"
    by (auto simp: in_fields_def list_all_iff)
  then have "j * field_count + (fid - 1) < Suc j * field_count"
    by simp
  also have "\<dots> \<le> length rs * field_count"
    using j by (intro mult_le_mono1) simp
  finally show "row < length rs * field_count"
    by (simp add: row)
qed

lemma to_batch_fields_bound:
  assumes "\<forall>r \<in> set rs. in_fields field_count r"
  shows "list_all (\<lambda>f. f < field_count) (field_indices (to_batch field_count rs))"
  unfolding list_all_iff
proof
  fix f assume "f \<in> set (field_indices (to_batch field_count rs))"
  then obtain r fid iid x where r: "r \<in> set rs"
    and t: "(fid, iid, x) \<in> set (features r)" and f: "f = fid - 1"
    by (auto simp: to_batch_arrays(2))
  from assms r t have "1 \<le> fid" and "fid \<le> field_count"
    by (auto simp: in_fields_def list_all_iff)
  then show "f < field_count"
    by (simp add: f)
qed

lemma to_batch_n_rows: "n_rows (to_batch field_count rs) = length rs * field_count"
  by (simp add: to_batch_def Let_def)

lemma to_batch_batch_of:
  assumes "\<forall>r \<in> set rs. in_fields field_count r"
  shows "batch_of field_count rs (to_batch field_count rs)"
proof -
  have "batch_arrays rs (to_batch field_count rs)"
    by (simp only: batch_arrays_def to_batch_arrays)
  moreover have "field_layout field_count rs (to_batch field_count rs)"
    unfolding field_layout_def to_batch_n_rows
    using to_batch_fields_bound[OF assms] to_batch_rows_bound[OF assms]
      to_batch_row_owners[OF assms] to_batch_row_fields[OF assms]
    by simp
  ultimately show ?thesis
    by (simp add: batch_of_def to_batch_parallel)
qed

lemma rows_determined:
  assumes "map (\<lambda>row. row div (k::nat)) xs = map (\<lambda>row. row div k) ys"
    and "map (\<lambda>row. row mod k) xs = map (\<lambda>row. row mod k) ys"
  shows "xs = ys"
proof -
  from assms(1) have len: "length xs = length ys"
    by (rule map_eq_imp_length_eq)
  from len assms show ?thesis
  proof (induction xs ys rule: list_induct2)
    case Nil
    then show ?case by simp
  next
    case (Cons x xs y ys)
    then have d: "x div k = y div k" and m: "x mod k = y mod k" and rest: "xs = ys"
      by simp_all
    have "x = x div k * k + x mod k" by simp
    also have "\<dots> = y div k * k + y mod k" by (simp only: d m)
    also have "\<dots> = y" by simp
    finally show ?case using rest by simp
  qed
qed

lemma batch_of_unique:
  assumes "batch_of field_count rs b" and "batch_of field_count rs b'"
  shows "b = b'"
proof (rule ffm_batch.equality)
  from assms show "labels b = labels b'" and "field_indices b = field_indices b'"
    and "feature_indices b = feature_indices b'" and "feature_values b = feature_values b'"
    by (simp_all only: batch_of_def batch_arrays_def)
  from assms show "n_rows b = n_rows b'"
    by (simp only: batch_of_def field_layout_def)
  have d: "map (\<lambda>row. row div field_count) (layout_rows b) = map (\<lambda>row. row div field_count) (layout_rows b')"
    using assms by (simp only: batch_of_def field_layout_def)
  have m: "map (\<lambda>row. row mod field_count) (layout_rows b) = map (\<lambda>row. row mod field_count) (layout_rows b')"
    using assms by (simp only: batch_of_def field_layout_def batch_arrays_def)
  from d m show "layout_rows b = layout_rows b'"
    by (rule rows_determined)
  show "ffm_batch.more b = ffm_batch.more b'"
    by simp
qed

lemma grouped_Nil: "grouped bs [] []"
  by (simp add: grouped_def)

lemma grouped_last:
  assumes "rs \<noteq> []" and "length rs \<le> bs"
  shows "grouped bs rs [rs]"
  using assms by (simp add: grouped_def)

lemma grouped_Cons:
  assumes "rs1 \<noteq> []" and "length rs1 = bs" and "grouped bs rs2 groups"
  shows "grouped bs (rs1 @ rs2) (rs1 # groups)"
  using assms by (auto simp: grouped_def)

lemma load_loop_well_formed:
  assumes "0 < bs" and "length buf < bs" and "\<forall>r \<in> set buf. in_fields field_count r"
    and "\<forall>l \<in> set wls. well_formed field_count l"
  shows "\<exists>batches groups.
           load_loop field_count bs n buf (map line_text wls) = (batches, None) \<and>
           grouped bs (buf @ map record_of wls) groups \<and>
           list_all2 (batch_of field_count) groups batches"
  using assms(2,3,4)
proof (induction wls arbitrary: n buf)
  case Nil
  show ?case
  proof (cases "buf = []")
    case True
    then have "load_loop field_count bs n buf (map line_text []) = ([], None) \<and>
           grouped bs (buf @ map record_of []) [] \<and>
           list_all2 (batch_of field_count) [] []"
      by (simp add: grouped_Nil)
    then show ?thesis by blast
  next
    case False
    with Nil.prems have "grouped bs buf [buf]"
      by (intro grouped_last) simp_all
    moreover from Nil.prems have "batch_of field_count buf (to_batch field_count buf)"
      by (intro to_batch_batch_of) simp
    ultimately have "load_loop field_count bs n buf (map line_text []) = ([to_batch field_count buf], None) \<and>
           grouped bs (buf @ map record_of []) [buf] \<and>
           list_all2 (batch_of field_count) [buf] [to_batch field_count buf]"
      using False by simp
    then show ?thesis by blast
  qed
next
  case (Cons wl wls)
  obtain lab triples where wl: "wl = (lab, triples)" by (cases wl) auto
  from Cons.prems(3) have wf: "well_formed field_count wl"
    and rest: "\<forall>l \<in> set wls. well_formed field_count l"
    by simp_all
  have p: "parser_one_line n (line_text wl) = Inr (record_of wl)"
    unfolding wl using wf[unfolded wl] by (rule parser_one_line_ok)
  from wf have rng: "in_fields field_count (record_of wl)"
    by (rule record_of_in_fields)
  from Cons.prems(2) rng have rg: "\<forall>r \<in> set (buf @ [record_of wl]). in_fields field_count r"
    by simp
  show ?case
  proof (cases "length (buf @ [record_of wl]) = bs")
    case True
    from assms(1) have "length ([]::sparse_record list) < bs" by simp
    from Cons.IH[OF this _ rest, of "Suc n"]
    obtain batches groups
      where b: "load_loop field_count bs (Suc n) [] (map line_text wls) = (batches, None)"
        and g: "grouped bs (map record_of wls) groups"
        and bo: "list_all2 (batch_of field_count) groups batches"
      by auto
    have g': "grouped bs ((buf @ [record_of wl]) @ map record_of wls) ((buf @ [record_of wl]) # groups)"
      using True g by (intro grouped_Cons) simp_all
    have bo': "list_all2 (batch_of field_count) ((buf @ [record_of wl]) # groups)
                 (to_batch field_count (buf @ [record_of wl]) # batches)"
      using bo to_batch_batch_of[OF rg] by simp
    have "load_loop field_count bs n buf (map line_text (wl # wls))
        = (to_batch field_count (buf @ [record_of wl]) # batches, None)"
      using True by (simp add: p b)
    with g' bo' show ?thesis
      by (intro exI[of _ "to_batch field_count (buf @ [record_of wl]) # batches"]
                exI[of _ "(buf @ [record_of wl]) # groups"]) simp
  next
    case False
    with Cons.prems(1) have lt: "length (buf @ [record_of wl]) < bs" by simp
    from Cons.IH[OF lt rg rest, of "Suc n"]
    obtain batches groups
      where b: "load_loop field_count bs (Suc n) (buf @ [record_of wl]) (map line_text wls) = (batches, None)"
        and g: "grouped bs ((buf @ [record_of wl]) @ map record_of wls) groups"
        and bo: "list_all2 (batch_of field_count) groups batches"
      by auto
    have "load_loop field_count bs n buf (map line_text (wl # wls)) = (batches, None)"
      using False by (simp add: p b)
    with g bo show ?thesis
      by (intro exI[of _ batches] exI[of _ groups]) simp
  qed
qed

lemma length3_cases:
  "length xs = 3 \<longleftrightarrow> (\<exists>a b c. xs = [a, b, c])"
  by (cases xs; cases "tl xs"; cases "tl (tl xs)") auto

lemma parse_feature_wrong_token_count:
  assumes "wrong_token_count tok"
  shows "parse_feature n tok = Inl (ParseError n tok WrongTokenCount)"
proof -
  from assms have "\<not> (\<exists>a b c. split_on CHR '':'' tok = [a, b, c])"
    by (simp add: wrong_token_count_def length3_cases)
  then show ?thesis
    unfolding parse_feature_def by (auto split: list.splits)
qed

lemma parse_feature_non_numeric_ids:
  assumes "non_numeric_ids tok"
  shows "parse_feature n tok = Inl (ParseError n tok NonNumericId)"
proof -
  from assms obtain f i v where sp: "split_on CHR '':'' tok = [f, i, v]"
    and bad: "parse_nat f = None \<or> parse_nat i = None"
    by (auto simp: non_numeric_ids_def split: list.splits)
  from bad show ?thesis
    by (cases "parse_nat f"; cases "parse_nat i") (simp_all add: parse_feature_def sp)
qed

lemma parse_feature_error:
  assumes "parse_feature n tok = Inl e"
  shows "\<exists>reason. e = ParseError n tok reason"
  using assms unfolding parse_feature_def
  by (auto split: list.splits option.splits if_splits)

lemma parse_features_error:
  assumes "parse_features n toks = Inl e"
  shows "\<exists>tok reason. tok \<in> set toks \<and> e = ParseError n tok reason"
  using assms
proof (induction toks)
  case Nil
  then show ?case by simp
next
  case (Cons tok toks)
  show ?case
  proof (cases "parse_feature n tok")
    case (Inl e')
    with Cons.prems have "e = e'" by simp
    with parse_feature_error[OF Inl] show ?thesis by auto
  next
    case (Inr t)
    with Cons.prems have "parse_features n toks = Inl e"
      by (simp split: sum.splits)
    from Cons.IH[OF this] show ?thesis by auto
  qed
qed

lemma parse_features_malformed:
  assumes "\<exists>tok \<in> set toks. wrong_token_count tok \<or> non_numeric_ids tok"
  shows "\<exists>e. parse_features n toks = Inl e"
  using assms
proof (induction toks)
  case Nil
  then show ?case by simp
next
  case (Cons tok toks)
  show ?case
  proof (cases "parse_feature n tok")
    case (Inl e')
    then show ?thesis by simp
  next
    case (Inr t)
    then have "\<not> (wrong_token_count tok \<or> non_numeric_ids tok)"
      using parse_feature_wrong_token_count[of tok n] parse_feature_non_numeric_ids[of tok n]
      by auto
    with Cons.prems have "\<exists>tok \<in> set toks. wrong_token_count tok \<or> non_numeric_ids tok"
      by simp
    from Cons.IH[OF this] obtain e where "parse_features n toks = Inl e" ..
    with Inr show ?thesis by simp
  qed
qed

lemma parser_one_line_error:
  assumes "parser_one_line n line = Inl e"
  shows "\<exists>tok reason. e = ParseError n tok reason \<and> tok \<in> set (split_on CHR '' '' line)"
proof (cases "split_on CHR '' '' line")
  case Nil
  then show ?thesis using split_on_not_Nil by blast
next
  case (Cons lab toks)
  show ?thesis
  proof (cases "lab = ''0'' \<or> lab = ''1''")
    case False
    with assms Cons have "e = ParseError n lab BadLabel"
      by (simp add: parser_one_line_def)
    with Cons show ?thesis by simp
  next
    case True
    with assms Cons have "parse_features n toks = Inl e"
      by (simp add: parser_one_line_def split: sum.splits)
    from parse_features_error[OF this] Cons show ?thesis by auto
  qed
qed

lemma parser_one_line_malformed:
  assumes "malformed line"
  shows "\<exists>tok reason. parser_one_line n line = Inl (ParseError n tok reason) \<and>
           tok \<in> set (split_on CHR '' '' line)"
proof -
  obtain lab toks where sp: "split_on CHR '' '' line = lab # toks"
    using split_on_not_Nil[of "CHR '' ''" line] by (cases "split_on CHR '' '' line") auto
  from assms have "\<exists>tok \<in> set toks. wrong_token_count tok \<or> non_numeric_ids tok"
    by (simp add: malformed_def feature_tokens_def sp list_ex_iff)
  from parse_features_malformed[OF this] obtain e' where pf: "parse_features n toks = Inl e'" ..
  have "\<exists>e. parser_one_line n line = Inl e"
    by (simp add: parser_one_line_def sp pf)
  then obtain e where e: "parser_one_line n line = Inl e" ..
  from parser_one_line_error[OF e] e show ?thesis by auto
qed

lemma load_loop_fails:
  assumes "k < length lines" and "parser_one_line (n + k) (lines ! k) = Inl e"
  shows "\<exists>j e'. j \<le> k \<and> parser_one_line (n + j) (lines ! j) = Inl e' \<and>
           snd (load_loop field_count bs n buf lines) = Some e' \<and>
           load_loop field_count bs n buf lines = load_loop field_count bs n buf (take (Suc j) lines) \<and>
           length (concat (map labels (fst (load_loop field_count bs n buf lines)))) \<le> length buf + j"
  using assms
proof (induction lines arbitrary: n buf k)
  case Nil
  then show ?case by simp
next
  case (Cons l ls)
  show ?case
  proof (cases "parser_one_line n l")
    case (Inl e0)
    then have "0 \<le> k \<and> parser_one_line (n + 0) ((l # ls) ! 0) = Inl e0 \<and>
           snd (load_loop field_count bs n buf (l # ls)) = Some e0 \<and>
           load_loop field_count bs n buf (l # ls) = load_loop field_count bs n buf (take (Suc 0) (l # ls)) \<and>
           length (concat (map labels (fst (load_loop field_count bs n buf (l # ls))))) \<le> length buf + 0"
      by simp
    then show ?thesis by blast
  next
    case (Inr r)
    with Cons.prems(2) have "k \<noteq> 0" by (cases k) auto
    then obtain k' where k: "k = Suc k'" by (cases k) auto
    from Cons.prems have k': "k' < length ls"
      and pe: "parser_one_line (Suc n + k') (ls ! k') = Inl e"
      by (simp_all add: k)
    show ?thesis
    proof (cases "length (buf @ [r]) = bs")
      case True
      from Cons.IH[OF k' pe, of "[]"]
      obtain j e' where j: "j \<le> k'" and pj: "parser_one_line (Suc n + j) (ls ! j) = Inl e'"
        and sn: "snd (load_loop field_count bs (Suc n) [] ls) = Some e'"
        and tk: "load_loop field_count bs (Suc n) [] ls = load_loop field_count bs (Suc n) [] (take (Suc j) ls)"
        and ln: "length (concat (map labels (fst (load_loop field_count bs (Suc n) [] ls)))) \<le> length ([]::sparse_record list) + j"
        by blast
      obtain batches err where res: "load_loop field_count bs (Suc n) [] ls = (batches, err)"
        by (cases "load_loop field_count bs (Suc n) [] ls") auto
      have full: "load_loop field_count bs n buf (l # ls) = (to_batch field_count (buf @ [r]) # batches, err)"
        using Inr True by (simp add: res)
      have full_take: "load_loop field_count bs n buf (take (Suc (Suc j)) (l # ls))
          = (to_batch field_count (buf @ [r]) # batches, err)"
        using Inr True by (simp add: tk[symmetric] res)
      have "Suc j \<le> k \<and> parser_one_line (n + Suc j) ((l # ls) ! Suc j) = Inl e' \<and>
           snd (load_loop field_count bs n buf (l # ls)) = Some e' \<and>
           load_loop field_count bs n buf (l # ls) = load_loop field_count bs n buf (take (Suc (Suc j)) (l # ls)) \<and>
           length (concat (map labels (fst (load_loop field_count bs n buf (l # ls))))) \<le> length buf + Suc j"
        using j pj sn ln unfolding full full_take
        by (simp add: k res to_batch_arrays(1))
      then show ?thesis by blast
    next
      case False
      from Cons.IH[OF k' pe, of "buf @ [r]"]
      obtain j e' where j: "j \<le> k'" and pj: "parser_one_line (Suc n + j) (ls ! j) = Inl e'"
        and sn: "snd (load_loop field_count bs (Suc n) (buf @ [r]) ls) = Some e'"
        and tk: "load_loop field_count bs (Suc n) (buf @ [r]) ls = load_loop field_count bs (Suc n) (buf @ [r]) (take (Suc j) ls)"
        and ln: "length (concat (map labels (fst (load_loop field_count bs (Suc n) (buf @ [r]) ls)))) \<le> length (buf @ [r]) + j"
        by blast
      have full: "load_loop field_count bs n buf (l # ls) = load_loop field_count bs (Suc n) (buf @ [r]) ls"
        using Inr False by simp
      have full_take: "load_loop field_count bs n buf (take (Suc (Suc j)) (l # ls))
          = load_loop field_count bs (Suc n) (buf @ [r]) (take (Suc j) ls)"
        using Inr False by simp
      have "Suc j \<le> k \<and> parser_one_line (n + Suc j) ((l # ls) ! Suc j) = Inl e' \<and>
           snd (load_loop field_count bs n buf (l # ls)) = Some e' \<and>
           load_loop field_count bs n buf (l # ls) = load_loop field_count bs n buf (take (Suc (Suc j)) (l # ls)) \<and>
           length (concat (map labels (fst (load_loop field_count bs n buf (l # ls))))) \<le> length buf + Suc j"
        using j pj sn ln tk unfolding full full_take
        by (simp add: k)
      then show ?thesis by blast
    qed
  qed
qed

text \<open>
  C6. For well-formed lines (a binary label followed by field:feature:value triples
  whose ids are numerals of numbers from 1 up, the field ids at most
  \<^verbatim>\<open>FIELD_COUNT\<close>) and a batch size of at least 1, the iterator reads the whole file
  without an error. The records that the lines denote are cut, in line order, into
  groups of at least one and at most \<open>bs\<close> records, every group but the last of
  exactly \<open>bs\<close> records, and there is one batch for each group, in this order. The
  batch of a group holds the labels of the group's records and, in parallel arrays, the
  0-based field indices, the 0-based feature indices and the feature values of the
  triples of these records, record after record. Its layout has \<^verbatim>\<open>FIELD_COUNT\<close>
  rows for each record of the group; every field index is less than
  \<^verbatim>\<open>FIELD_COUNT\<close>, and the row of every entry lies in the block of rows of the
  record the entry comes from, at the position of the entry's field.
\<close>

theorem ffm_iterator_batches:
  assumes "0 < bs" and "\<forall>l \<in> set wls. well_formed field_count l"
  shows "\<exists>batches groups.
      load_data_from_file field_count bs (map line_text wls) = (batches, None) \<and>
      grouped bs (map record_of wls) groups \<and>
      list_all2 (batch_of field_count) groups batches"
proof -
  have "length ([]::sparse_record list) < bs" using assms(1) by simp
  from load_loop_well_formed[OF assms(1) this _ assms(2), where n = 1]
  show ?thesis
    by (simp add: load_data_from_file_def)
qed

theorem ffm_iterator_batches_witness:
  "\<exists>batches groups.
      load_data_from_file 3 2 [''1 1:5:1 3:77:0.5'', ''0 2:6:1'', ''1 3:7:2''] = (batches, None) \<and>
      grouped 2 [\<lparr>label = 1, features = [(1, 5, 1), (3, 77, 1 / 2)]\<rparr>,
                 \<lparr>label = 0, features = [(2, 6, 1)]\<rparr>,
                 \<lparr>label = 1, features = [(3, 7, 2)]\<rparr>] groups \<and>
      list_all2 (batch_of 3) groups batches"
proof -
  let ?wls = "[(1, [([1], [5], [1], []), ([3], [7, 7], [0], [5])]),
               (0, [([2], [6], [1], [])]),
               (1, [([3], [7], [2], [])])] :: ffm_line list"
  have wf: "\<forall>l \<in> set ?wls. well_formed 3 l"
    by (simp add: well_formed_def good_triple_def is_value_def is_numeral_def digits_def)
  have lines: "map line_text ?wls = [''1 1:5:1 3:77:0.5'', ''0 2:6:1'', ''1 3:7:2'']"
    by (simp add: line_text_def triple_text_def value_text_def numeral_text_def digit_char_def)
  have recs: "map record_of ?wls
      = [\<lparr>label = 1, features = [(1, 5, 1), (3, 77, 1 / 2)]\<rparr>,
         \<lparr>label = 0, features = [(2, 6, 1)]\<rparr>,
         \<lparr>label = 1, features = [(3, 7, 2)]\<rparr>]"
    by (simp add: record_of_def value_of_def)
  have bs: "0 < (2::nat)" by simp
  from ffm_iterator_batches[OF bs wf] show ?thesis
    unfolding lines recs .
qed

text \<open>
  C7. When line \<open>k + 1\<close> of the file is malformed (one of its feature tokens has a
  wrong token count or a non-numeric id): such a token is refused with an error that
  names the line, the token and the defect; parsing the line fails with an error that
  names the line and one of its tokens; and the iteration ends with such an error for
  the first line that fails, at or before line \<open>k + 1\<close>. Nothing after that line is
  read (the result is that of the file cut after it), and the batches produced hold
  records of earlier lines only: the failed line is neither skipped nor tried again.
\<close>

theorem malformed_line_fails_fast:
  assumes "k < length lines" and "malformed (lines ! k)"
  shows "(\<forall>tok \<in> set (feature_tokens (lines ! k)).
            (wrong_token_count tok \<longrightarrow>
               parse_feature (Suc k) tok = Inl (ParseError (Suc k) tok WrongTokenCount)) \<and>
            (non_numeric_ids tok \<longrightarrow>
               parse_feature (Suc k) tok = Inl (ParseError (Suc k) tok NonNumericId))) \<and>
         (\<exists>tok reason. parser_one_line (Suc k) (lines ! k) = Inl (ParseError (Suc k) tok reason) \<and>
            tok \<in> set (split_on CHR '' '' (lines ! k))) \<and>
         (\<exists>j tok reason. j \<le> k \<and>
            snd (load_data_from_file field_count bs lines) = Some (ParseError (Suc j) tok reason) \<and>
            tok \<in> set (split_on CHR '' '' (lines ! j)) \<and>
            load_data_from_file field_count bs lines = load_data_from_file field_count bs (take (Suc j) lines) \<and>
            length (concat (map labels (fst (load_data_from_file field_count bs lines)))) \<le> j)"
proof -
  have tokens: "\<forall>tok \<in> set (feature_tokens (lines ! k)).
            (wrong_token_count tok \<longrightarrow>
               parse_feature (Suc k) tok = Inl (ParseError (Suc k) tok WrongTokenCount)) \<and>
            (non_numeric_ids tok \<longrightarrow>
               parse_feature (Suc k) tok = Inl (ParseError (Suc k) tok NonNumericId))"
    using parse_feature_wrong_token_count parse_feature_non_numeric_ids by blast
  from parser_one_line_malformed[OF assms(2), of "Suc k"]
  have line: "\<exists>tok reason. parser_one_line (Suc k) (lines ! k) = Inl (ParseError (Suc k) tok reason) \<and>
            tok \<in> set (split_on CHR '' '' (lines ! k))" .
  then obtain e where e: "parser_one_line (1 + k) (lines ! k) = Inl e"
    by auto
  from load_loop_fails[OF assms(1) e, where field_count = field_count and bs = bs and buf = "[]"]
  obtain j e' where j: "j \<le> k" and pj: "parser_one_line (1 + j) (lines ! j) = Inl e'"
    and sn: "snd (load_loop field_count bs 1 [] lines) = Some e'"
    and tk: "load_loop field_count bs 1 [] lines = load_loop field_count bs 1 [] (take (Suc j) lines)"
    and ln: "length (concat (map labels (fst (load_loop field_count bs 1 [] lines)))) \<le> length ([]::sparse_record list) + j"
    by blast
  from parser_one_line_error[OF pj] obtain tok reason
    where e': "e' = ParseError (Suc j) tok reason" and tok: "tok \<in> set (split_on CHR '' '' (lines ! j))"
    by auto
  have "j \<le> k \<and>
        snd (load_data_from_file field_count bs lines) = Some (ParseError (Suc j) tok reason) \<and>
        tok \<in> set (split_on CHR '' '' (lines ! j)) \<and>
        load_data_from_file field_count bs lines = load_data_from_file field_count bs (take (Suc j) lines) \<and>
        length (concat (map labels (fst (load_data_from_file field_count bs lines)))) \<le> j"
    using j sn tk ln tok unfolding load_data_from_file_def e' by simp
  then have load: "\<exists>j tok reason. j \<le> k \<and>
            snd (load_data_from_file field_count bs lines) = Some (ParseError (Suc j) tok reason) \<and>
            tok \<in> set (split_on CHR '' '' (lines ! j)) \<and>
            load_data_from_file field_count bs lines = load_data_from_file field_count bs (take (Suc j) lines) \<and>
            length (concat (map labels (fst (load_data_from_file field_count bs lines)))) \<le> j"
    by blast
  from tokens line load show ?thesis by blast
qed

theorem malformed_line_fails_fast_witness:
  "malformed ''1 3:77'' \<and>
   snd (load_data_from_file 3 2 [''1 1:5:1'', ''1 3:77'', ''0 2:6:1''])
     = Some (ParseError 2 ''3:77'' WrongTokenCount) \<and>
   (\<exists>tok reason. parser_one_line 2 ''1 3:77'' = Inl (ParseError 2 tok reason))"
proof -
  let ?lines = "[''1 1:5:1'', ''1 3:77'', ''0 2:6:1'']"
  have m: "malformed (?lines ! 1)"
    by (simp add: malformed_def feature_tokens_def wrong_token_count_def)
  have k: "(1::nat) < length ?lines" by simp
  have pn: "parse_nat ''1'' = Some 1" "parse_nat ''5'' = Some 5"
    by (simp_all add: parse_nat_def is_digit_def digit_val_def)
  have pv: "parse_value ''1'' = Some 1"
    by (simp add: parse_value_def pn)
  have l1: "parser_one_line n ''1 1:5:1'' = Inr \<lparr>label = 1, features = [(1, 5, 1)]\<rparr>" for n
    by (simp add: parser_one_line_def parse_feature_def pn pv)
  have l2: "parser_one_line n ''1 3:77'' = Inl (ParseError n ''3:77'' WrongTokenCount)" for n
    by (simp add: parser_one_line_def parse_feature_def)
  have two: "Suc (Suc 0) = 2" by simp
  have load: "snd (load_data_from_file 3 2 ?lines) = Some (ParseError 2 ''3:77'' WrongTokenCount)"
    by (simp add: load_data_from_file_def l1 l2 two)
  from malformed_line_fails_fast[OF k m, where field_count = 3 and bs = 2]
  have "\<exists>tok reason. parser_one_line (Suc 1) (?lines ! 1) = Inl (ParseError (Suc 1) tok reason)"
    by blast
  then have "\<exists>tok reason. parser_one_line 2 ''1 3:77'' = Inl (ParseError 2 tok reason)"
    by (simp add: numeral_2_eq_2)
  with m load show ?thesis by simp
qed

end
